theory Spec2Isabelle
  imports Main "HOL-Library.Char_ord" "HOL-Library.List_Lexorder"
begin

section \<open>Participation queries of \<open>course/enrollment.py\<close>\<close>

text \<open>
  The development embeds the query language of \<^verbatim>\<open>course/enrollment.py\<close>: the lexer table
  \<^verbatim>\<open>_LEX_TABLE\<close>, the precedence parser \<^verbatim>\<open>parse_query\<close> with its local functions
  \<^verbatim>\<open>parse_terminal\<close> and \<^verbatim>\<open>inner_parse\<close>, and the body of the view
  \<^verbatim>\<open>query_participations\<close> for a valid POST form.

  Text is a list of characters. The character classes of the regular expressions are given
  for ASCII: \<^verbatim>\<open>\w\<close> is a letter, a digit or the underscore.
\<close>

subsection \<open>Lexer data\<close>

text \<open>
  The interned tag strings \<^verbatim>\<open>_and\<close>, \<^verbatim>\<open>_or\<close>, ... are compared by identity in the source;
  they are the constructors of \<open>tag\<close>. \<open>tag_name\<close> below gives the string behind each.

  \<open>RE\<close> holds the five shapes of pattern that occur in \<^verbatim>\<open>_LEX_TABLE\<close>:
  \<^item> \<open>Word w\<close> is \<^verbatim>\<open>w\b\<close>, a literal that ends in a word character, then a word boundary;
  \<^item> \<open>Lit w\<close> is a literal;
  \<^item> \<open>Group p cls\<close> is \<^verbatim>\<open>p([cls]+)\<close> and \<open>NegGroup p cls\<close> is \<^verbatim>\<open>p([^cls]+)\<close>;
  \<^item> \<open>Class cls\<close> is \<^verbatim>\<open>[cls]+\<close>.
  \<open>re_match\<close> is \<^verbatim>\<open>RE.match(s, pos)\<close> on the text from \<open>pos\<close> on: the length of the
  match and its \<^verbatim>\<open>group(1)\<close> (empty for a pattern without a group). The repetitions are
  greedy and nothing follows them, so the longest run of class characters is the match.
\<close>

datatype tag = T_and | T_or | T_not | T_openpar | T_closepar
  | T_id | T_email | T_email_contains | T_user | T_user_contains
  | T_tagged | T_role | T_status | T_has_started | T_has_submitted
  | T_whitespace

datatype RE = Word string | Lit string | Group string "char list" | NegGroup string "char list"
  | Class "char list"

definition word_chars :: "char list" where
  "word_chars = ''abcdefghijklmnopqrstuvwxyzABCDEFGHIJKLMNOPQRSTUVWXYZ0123456789_''"

definition digit_chars :: "char list" where
  "digit_chars = ''0123456789''"

definition space_chars :: "char list" where
  "space_chars = [CHR '' '', CHR 0x09, CHR 0x0A, CHR 0x0D, CHR 0x0C, CHR 0x0B]"

definition strip_chars :: "char list" where
  "strip_chars = space_chars @ [CHR 0x1C, CHR 0x1D, CHR 0x1E, CHR 0x1F]"

definition startswith :: "string \<Rightarrow> string \<Rightarrow> bool" where
  "startswith s p = (take (length p) s = p)"

fun re_match :: "RE \<Rightarrow> string \<Rightarrow> (nat \<times> string) option" where
  "re_match (Word w) s =
     (if startswith s w \<and> (case drop (length w) s of [] \<Rightarrow> True | c # _ \<Rightarrow> c \<notin> set word_chars)
      then Some (length w, []) else None)"
| "re_match (Lit w) s = (if startswith s w then Some (length w, []) else None)"
| "re_match (Group p cls) s =
     (if startswith s p
      then (let g = takeWhile (\<lambda>c. c \<in> set cls) (drop (length p) s)
            in if g = [] then None else Some (length p + length g, g))
      else None)"
| "re_match (NegGroup p cls) s =
     (if startswith s p
      then (let g = takeWhile (\<lambda>c. c \<notin> set cls) (drop (length p) s)
            in if g = [] then None else Some (length p + length g, g))
      else None)"
| "re_match (Class cls) s =
     (let g = takeWhile (\<lambda>c. c \<in> set cls) s
      in if g = [] then None else Some (length g, []))"

definition LEX_TABLE :: "(tag \<times> RE) list" where
  "LEX_TABLE =
    [(T_and, Word ''and''),
     (T_or, Word ''or''),
     (T_not, Word ''not''),
     (T_openpar, Lit ''(''),
     (T_closepar, Lit '')''),
     (T_id, Group ''id:'' digit_chars),
     (T_email, NegGroup ''email:'' (space_chars @ '')'')),
     (T_email_contains, NegGroup ''email-contains:'' (space_chars @ '')'')),
     (T_user, NegGroup ''username:'' (space_chars @ '')'')),
     (T_user_contains, NegGroup ''username-contains:'' (space_chars @ '')'')),
     (T_tagged, Group ''tagged:'' (CHR ''-'' # word_chars)),
     (T_role, Group ''role:'' word_chars),
     (T_status, Group ''status:'' word_chars),
     (T_has_started, Group ''has-started:'' (CHR ''-'' # CHR ''_'' # word_chars)),
     (T_has_submitted, Group ''has-submitted:'' (CHR ''-'' # CHR ''_'' # word_chars)),
     (T_whitespace, Class [CHR '' '', CHR 0x09])]"

subsection \<open>The lexer\<close>

text \<open>
  \<^verbatim>\<open>pytools.lex.lex(_LEX_TABLE, expr_str, match_objects=True)\<close>: at each offset the rules are
  tried in table order, the first rule with a match of non-zero length gives the token
  \<^verbatim>\<open>(tag, s[i:i+length], i, match_obj)\<close>, and no matching rule raises
  \<^verbatim>\<open>InvalidTokenError(s, i)\<close>. The match object is represented by its \<^verbatim>\<open>group(1)\<close>.
\<close>
datatype error = InvalidTokenError nat | ParseError string | ValueError

type_synonym token = "tag \<times> string \<times> nat \<times> string"

fun matches_rule :: "(tag \<times> RE) list \<Rightarrow> string \<Rightarrow> (tag \<times> nat \<times> string) option" where
  "matches_rule [] s = None"
| "matches_rule ((name, rule) # tbl) s =
     (case re_match rule s of
        None \<Rightarrow> matches_rule tbl s
      | Some (len, g) \<Rightarrow> if len \<noteq> 0 then Some (name, len, g) else matches_rule tbl s)"

function lex :: "(tag \<times> RE) list \<Rightarrow> string \<Rightarrow> nat \<Rightarrow> error + token list" where
  "lex tbl s i =
     (if i < length s then
        (case matches_rule tbl (drop i s) of
           None \<Rightarrow> Inl (InvalidTokenError i)
         | Some (name, len, g) \<Rightarrow>
             (case lex tbl s (i + len) of
                Inl e \<Rightarrow> Inl e
              | Inr result \<Rightarrow> Inr ((name, take len (drop i s), i, g) # result)))
      else Inr [])"
  by pat_completeness auto

text \<open>The list comprehension of \<^verbatim>\<open>parse_query\<close> that drops the whitespace tokens.\<close>

definition lex_filtered :: "string \<Rightarrow> error + token list" where
  "lex_filtered expr_str =
     (case lex LEX_TABLE expr_str 0 of
        Inl e \<Rightarrow> Inl e
      | Inr toks \<Rightarrow> Inr (filter (\<lambda>t. fst t \<noteq> T_whitespace) toks))"

text \<open>
  \<^verbatim>\<open>int(s)\<close> on a string of decimal digits; Python integers are unbounded. Every other string
  is rejected here (\<^verbatim>\<open>ValueError\<close>), which is stricter than Python, whose \<^verbatim>\<open>int\<close> also takes
  a sign and surrounding blanks.
\<close>

fun py_int_digits :: "string \<Rightarrow> int \<Rightarrow> int" where
  "py_int_digits [] acc = acc"
| "py_int_digits (c # cs) acc = py_int_digits cs (10 * acc + (int (of_char c) - 48))"

definition py_int :: "string \<Rightarrow> int option" where
  "py_int s = (if s \<noteq> [] \<and> (\<forall>c \<in> set s. c \<in> set digit_chars)
               then Some (py_int_digits s 0) else None)"

subsection \<open>Predicates\<close>

text \<open>
  The Django \<^verbatim>\<open>Q\<close> objects that the parser builds. A leaf is one keyword lookup,
  \<^verbatim>\<open>Q(user__id=n)\<close> is \<open>User_id n\<close> and so on; \<^verbatim>\<open>&\<close>, \<^verbatim>\<open>|\<close> and \<^verbatim>\<open>~\<close> are \<open>QAnd\<close>,
  \<open>QOr\<close> and \<open>QNot\<close>. The conjunction of \<^verbatim>\<open>flow_sessions__...\<close> lookups that
  \<^verbatim>\<open>parse_terminal\<close> builds for \<^verbatim>\<open>has-started\<close> and \<^verbatim>\<open>has-submitted\<close> is the leaf
  \<open>Flow_sessions\<close> with the list of its lookups, in the order of the source.
\<close>

type_synonym course = nat

datatype fs_lookup = Flow_id string | Fs_course course | In_progress bool

datatype Q = User_id int | User_email_iexact string | User_email_icontains string
  | User_username_exact string | User_username_contains string
  | Tags_pk nat | Role string | Status string
  | Flow_sessions "fs_lookup list"
  | QAnd Q Q | QOr Q Q | QNot Q

text \<open>
  The table of \<^verbatim>\<open>ParticipationTag\<close> rows, \<open>(course, name)\<close>; the primary key of a row is its
  position. \<^verbatim>\<open>ParticipationTag.objects.get_or_create(course=..., name=...)\<close> returns the key of
  the row with this course and name and whether it was created, appending the row when
  there is none. Nothing in the code shown deletes a tag.
\<close>

type_synonym tag_table = "(course \<times> string) list"

fun find_pk :: "course \<times> string \<Rightarrow> tag_table \<Rightarrow> nat option" where
  "find_pk k [] = None"
| "find_pk k (x # xs) = (if x = k then Some 0 else map_option Suc (find_pk k xs))"

definition get_or_create :: "course \<Rightarrow> string \<Rightarrow> tag_table \<Rightarrow> (nat \<times> bool) \<times> tag_table" where
  "get_or_create course name objs =
     (case find_pk (course, name) objs of
        Some pk \<Rightarrow> ((pk, False), objs)
      | None \<Rightarrow> ((length objs, True), objs @ [(course, name)]))"

subsection \<open>The parser state\<close>

text \<open>
  \<^verbatim>\<open>pytools.lex.LexIterator\<close>: the token list and the index of the next token. The tag table
  travels with it, since \<^verbatim>\<open>parse_terminal\<close> writes to the database.
  An exception is the outcome \<open>Raise\<close>, returned with the state reached.
\<close>

datatype 'a outcome = Raise error | Return 'a

record pstate =
  lexed :: "token list"
  index :: nat
  tag_objects :: tag_table

definition PREC_OR :: nat where "PREC_OR = 10"
definition PREC_AND :: nat where "PREC_AND = 20"
definition PREC_NOT :: nat where "PREC_NOT = 30"

definition TERMINALS :: "tag list" where
  "TERMINALS = [T_id, T_email, T_email_contains, T_user, T_user_contains, T_tagged, T_role, T_status]"

fun tag_name :: "tag \<Rightarrow> string" where
  "tag_name T_and = ''and''"
| "tag_name T_or = ''or''"
| "tag_name T_not = ''not''"
| "tag_name T_openpar = ''openpar''"
| "tag_name T_closepar = ''closepar''"
| "tag_name T_id = ''id''"
| "tag_name T_email = ''email''"
| "tag_name T_email_contains = ''email_contains''"
| "tag_name T_user = ''user''"
| "tag_name T_user_contains = ''user_contains''"
| "tag_name T_tagged = ''tagged''"
| "tag_name T_role = ''role''"
| "tag_name T_status = ''status''"
| "tag_name T_has_started = ''has_started''"
| "tag_name T_has_submitted = ''has_submitted''"
| "tag_name T_whitespace = ''whitespace''"

definition is_at_end :: "pstate \<Rightarrow> bool" where
  "is_at_end ps = (index ps \<ge> length (lexed ps))"

definition next_tag :: "pstate \<Rightarrow> tag outcome" where
  "next_tag ps = (if index ps < length (lexed ps) then Return (fst (lexed ps ! index ps))
                  else Raise (ParseError ''No further input''))"

definition next_match_obj :: "pstate \<Rightarrow> string" where
  "next_match_obj ps = snd (snd (snd (lexed ps ! index ps)))"

definition is_next :: "tag \<Rightarrow> pstate \<Rightarrow> bool" where
  "is_next t ps = (index ps < length (lexed ps) \<and> next_tag ps = Return t)"

definition advance :: "pstate \<Rightarrow> pstate" where
  "advance ps = ps\<lparr>index := index ps + 1\<rparr>"

definition expected :: "string \<Rightarrow> pstate \<Rightarrow> error" where
  "expected what_expected ps =
     (if is_at_end ps then ParseError (what_expected @ '' expected, end of input found instead'')
      else ParseError (what_expected @ '' expected, ''
             @ tag_name (fst (lexed ps ! index ps)) @ '' found instead''))"

subsection \<open>The parser\<close>

text \<open>
  \<^verbatim>\<open>parse_terminal\<close> and \<^verbatim>\<open>inner_parse\<close>, branch by branch. The \<^verbatim>\<open>while did_something\<close> loop
  of \<^verbatim>\<open>inner_parse\<close> is the function \<open>while_did_something\<close>, with \<^verbatim>\<open>left_query\<close> as its
  accumulator; each iteration that does something is a recursive call.
\<close>

definition parse_terminal :: "course \<Rightarrow> pstate \<Rightarrow> Q outcome \<times> pstate" where
  "parse_terminal course ps =
     (case next_tag ps of
        Raise e \<Rightarrow> (Raise e, ps)
      | Return t \<Rightarrow>
          if t = T_id then
            (case py_int (next_match_obj ps) of
               None \<Rightarrow> (Raise ValueError, ps)
             | Some n \<Rightarrow> (Return (User_id n), advance ps))
          else if t = T_email then
            (Return (User_email_iexact (next_match_obj ps)), advance ps)
          else if t = T_email_contains then
            (Return (User_email_icontains (next_match_obj ps)), advance ps)
          else if t = T_user then
            (Return (User_username_exact (next_match_obj ps)), advance ps)
          else if t = T_user_contains then
            (Return (User_username_contains (next_match_obj ps)), advance ps)
          else if t = T_tagged then
            (case get_or_create course (next_match_obj ps) (tag_objects ps) of
               ((ptag_pk, created), objs) \<Rightarrow>
                 (Return (Tags_pk ptag_pk), advance (ps\<lparr>tag_objects := objs\<rparr>)))
          else if t = T_role then
            (Return (Role (next_match_obj ps)), advance ps)
          else if t = T_status then
            (Return (Status (next_match_obj ps)), advance ps)
          else if t = T_has_started then
            (Return (Flow_sessions [Flow_id (next_match_obj ps), Fs_course course]), advance ps)
          else if t = T_has_submitted then
            (Return (Flow_sessions [Flow_id (next_match_obj ps), Fs_course course,
                                    In_progress False]), advance ps)
          else (Raise (expected ''terminal'' ps), ps))"

function inner_parse :: "course \<Rightarrow> pstate \<Rightarrow> nat \<Rightarrow> Q outcome \<times> pstate"
  and while_did_something :: "course \<Rightarrow> Q \<Rightarrow> pstate \<Rightarrow> nat \<Rightarrow> Q outcome \<times> pstate"
where
  "inner_parse course ps min_precedence =
     (if is_at_end ps then (Raise (ParseError ''unexpected end of input''), ps)
      else if is_next T_not ps then
        (case inner_parse course (advance ps) PREC_NOT of
           (Raise e, ps1) \<Rightarrow> (Raise e, ps1)
         | (Return q, ps1) \<Rightarrow> while_did_something course (QNot q) ps1 min_precedence)
      else if is_next T_openpar ps then
        (case inner_parse course (advance ps) 0 of
           (Raise e, ps1) \<Rightarrow> (Raise e, ps1)
         | (Return q, ps1) \<Rightarrow>
             if is_at_end ps1 then (Raise (ParseError ''unexpected end of input''), ps1)
             else if \<not> is_next T_closepar ps1 then (Raise (expected ''closepar'' ps1), ps1)
             else while_did_something course q (advance ps1) min_precedence)
      else
        (case parse_terminal course ps of
           (Raise e, ps1) \<Rightarrow> (Raise e, ps1)
         | (Return q, ps1) \<Rightarrow> while_did_something course q ps1 min_precedence))"
| "while_did_something course left_query ps min_precedence =
     (if is_at_end ps then (Return left_query, ps)
      else
        (case next_tag ps of
           Raise e \<Rightarrow> (Raise e, ps)
         | Return t \<Rightarrow>
             if t = T_and \<and> PREC_AND > min_precedence then
               (case inner_parse course (advance ps) PREC_AND of
                  (Raise e, ps1) \<Rightarrow> (Raise e, ps1)
                | (Return q, ps1) \<Rightarrow>
                    while_did_something course (QAnd left_query q) ps1 min_precedence)
             else if t = T_or \<and> PREC_OR > min_precedence then
               (case inner_parse course (advance ps) PREC_OR of
                  (Raise e, ps1) \<Rightarrow> (Raise e, ps1)
                | (Return q, ps1) \<Rightarrow>
                    while_did_something course (QOr left_query q) ps1 min_precedence)
             else if t \<in> set (TERMINALS @ [T_not, T_openpar]) \<and> PREC_AND > min_precedence then
               (case inner_parse course ps PREC_AND of
                  (Raise e, ps1) \<Rightarrow> (Raise e, ps1)
                | (Return q, ps1) \<Rightarrow>
                    while_did_something course (QAnd left_query q) ps1 min_precedence)
             else (Return left_query, ps)))"
  by pat_completeness auto

definition parse_query :: "course \<Rightarrow> string \<Rightarrow> tag_table \<Rightarrow> Q outcome \<times> tag_table" where
  "parse_query course expr_str objs =
     (case lex_filtered expr_str of
        Inl e \<Rightarrow> (Raise e, objs)
      | Inr toks \<Rightarrow>
          (let pstate = \<lparr>lexed = toks, index = 0, tag_objects = objs\<rparr> in
           if is_at_end pstate then (Raise (ParseError ''unexpected end of input''), objs)
           else
             (case inner_parse course pstate 0 of
                (Raise e, ps1) \<Rightarrow> (Raise e, tag_objects ps1)
              | (Return result, ps1) \<Rightarrow>
                  if \<not> is_at_end ps1
                  then (Raise (ParseError ''leftover input after completed parse''),
                        tag_objects ps1)
                  else (Return result, tag_objects ps1))))"

subsection \<open>Participations and the evaluation of predicates\<close>

text \<open>
  The rows of \<^verbatim>\<open>Participation\<close> with the fields that the lookups read, the tags as the set of
  keys of the many-to-many relation, and the related \<^verbatim>\<open>FlowSession\<close> rows.
\<close>

record flow_session =
  flow_id :: string
  fs_course :: course
  in_progress :: bool

record participation =
  pk :: nat
  p_course :: course
  user_id :: int
  user_email :: string
  user_username :: string
  role :: string
  status :: string
  tags :: "nat set"
  flow_sessions :: "flow_session list"

record database =
  tag_table :: tag_table
  participations :: "participation list"

text \<open>
  Modelled from the spec: the comparisons behind the lookups \<^verbatim>\<open>iexact\<close>, \<^verbatim>\<open>icontains\<close> and
  \<^verbatim>\<open>contains\<close>, which the database carries out. Case is folded for the ASCII letters.
\<close>

definition lower_char :: "char \<Rightarrow> char" where
  "lower_char c = (if c \<in> set ''ABCDEFGHIJKLMNOPQRSTUVWXYZ''
                   then char_of (of_char c + (32::nat)) else c)"

definition lower :: "string \<Rightarrow> string" where
  "lower s = map lower_char s"

fun contains :: "string \<Rightarrow> string \<Rightarrow> bool" where
  "contains [] sub = (sub = [])"
| "contains (c # cs) sub = (startswith (c # cs) sub \<or> contains cs sub)"

text \<open>
  Modelled from the spec: one lookup on a related \<^verbatim>\<open>FlowSession\<close> row, as the Django ORM
  evaluates it; the ORM is not part of the source.
\<close>

fun fs_matches :: "flow_session \<Rightarrow> fs_lookup \<Rightarrow> bool" where
  "fs_matches fs (Flow_id f) = (flow_id fs = f)"
| "fs_matches fs (Fs_course c) = (fs_course fs = c)"
| "fs_matches fs (In_progress b) = (in_progress fs = b)"

text \<open>
  Modelled from the spec: the evaluation of a \<^verbatim>\<open>Q\<close> object by \<^verbatim>\<open>QuerySet.filter\<close>, which is
  the work of the Django ORM and not part of the source. \<open>matches\<close> follows the table of
  terminal conditions of the specification: equality of a field, equality and containment
  without regard to case for the email, membership of a tag, for \<open>Flow_sessions\<close> the
  existence of one related flow session that satisfies every lookup of the list, and
  \<open>QAnd\<close>, \<open>QOr\<close>, \<open>QNot\<close> as conjunction, disjunction and negation.
\<close>

fun matches :: "Q \<Rightarrow> participation \<Rightarrow> bool" where
  "matches (User_id n) p = (user_id p = n)"
| "matches (User_email_iexact s) p = (lower (user_email p) = lower s)"
| "matches (User_email_icontains s) p = contains (lower (user_email p)) (lower s)"
| "matches (User_username_exact s) p = (user_username p = s)"
| "matches (User_username_contains s) p = contains (user_username p) s"
| "matches (Tags_pk k) p = (k \<in> tags p)"
| "matches (Role r) p = (role p = r)"
| "matches (Status st) p = (status p = st)"
| "matches (Flow_sessions conds) p =
     list_ex (\<lambda>fs. list_all (fs_matches fs) conds) (flow_sessions p)"
| "matches (QAnd a b) p = (matches a p \<and> matches b p)"
| "matches (QOr a b) p = (matches a p \<or> matches b p)"
| "matches (QNot a) p = (\<not> matches a p)"

definition filter_participations :: "course \<Rightarrow> Q \<Rightarrow> participation list \<Rightarrow> participation list" where
  "filter_participations course parsed_query objs =
     sort_key user_username
       (filter (matches parsed_query) (filter (\<lambda>p. p_course p = course) objs))"

subsection \<open>The view\<close>

text \<open>
  \<^verbatim>\<open>str.split("\n")\<close> and \<^verbatim>\<open>str.strip()\<close>, then the body of \<^verbatim>\<open>query_participations\<close> for a
  POST request whose form is valid. \<open>parse_lines\<close> is the \<^verbatim>\<open>for lineno, q in enumerate(...)\<close>
  loop inside \<^verbatim>\<open>try\<close>: the first exception leaves the loop with the number of its line, and
  what \<^verbatim>\<open>parse_terminal\<close> has written to the tag table by then stays written.
  The form field \<^verbatim>\<open>op\<close> is a choice of three, so the final \<^verbatim>\<open>else: raise RuntimeError\<close> has no
  counterpart. \<open>for_p_in_result\<close> is a loop \<^verbatim>\<open>for p in result\<close> whose body changes \<open>p\<close>: the
  row of each listed participation changes in the database, and so does the listed object.
  The view returns the database, the messages added and \<^verbatim>\<open>result\<close>.
\<close>

fun split_newline :: "string \<Rightarrow> string list" where
  "split_newline [] = [[]]"
| "split_newline (c # cs) =
     (if c = CHR 0x0A then [] # split_newline cs
      else (case split_newline cs of
              [] \<Rightarrow> [[c]]
            | l # ls \<Rightarrow> (c # l) # ls))"

definition strip :: "string \<Rightarrow> string" where
  "strip s = rev (dropWhile (\<lambda>c. c \<in> set strip_chars)
                  (rev (dropWhile (\<lambda>c. c \<in> set strip_chars) s)))"

datatype operation = Apply_tag | Remove_tag | Drop

record request =
  queries :: string
  apply_submitted :: bool
  op :: operation
  tag :: string

datatype message = ERROR_in_line nat error | INFO_operation_successful nat

fun parse_lines :: "course \<Rightarrow> (nat \<times> string) list \<Rightarrow> Q option \<Rightarrow> tag_table
                    \<Rightarrow> ((nat \<times> error) + Q option) \<times> tag_table" where
  "parse_lines course [] parsed_query objs = (Inr parsed_query, objs)"
| "parse_lines course ((lineno, q) # rest) parsed_query objs =
     (if strip q = [] then parse_lines course rest parsed_query objs
      else
        (case parse_query course (strip q) objs of
           (Raise e, objs1) \<Rightarrow> (Inl (lineno, e), objs1)
         | (Return parsed_subquery, objs1) \<Rightarrow>
             (case parsed_query of
                None \<Rightarrow> parse_lines course rest (Some parsed_subquery) objs1
              | Some pq \<Rightarrow> parse_lines course rest (Some (QOr pq parsed_subquery)) objs1)))"

definition update_matched :: "participation list \<Rightarrow> (participation \<Rightarrow> participation)
                               \<Rightarrow> participation list \<Rightarrow> participation list" where
  "update_matched result f objs = map (\<lambda>p. if pk p \<in> pk ` set result then f p else p) objs"

definition for_p_in_result :: "participation list \<Rightarrow> (participation \<Rightarrow> participation)
                                \<Rightarrow> database \<Rightarrow> database \<times> participation list" where
  "for_p_in_result result f db =
     (db\<lparr>participations := update_matched result f (participations db)\<rparr>, map f result)"

definition apply_operation :: "course \<Rightarrow> operation \<Rightarrow> string \<Rightarrow> participation list
                                \<Rightarrow> database \<Rightarrow> database \<times> participation list" where
  "apply_operation course operation tag_name' result db =
     (case operation of
        Apply_tag \<Rightarrow>
          (case get_or_create course tag_name' (tag_table db) of
             ((ptag_pk, created), objs) \<Rightarrow>
               for_p_in_result result (\<lambda>p. p\<lparr>tags := insert ptag_pk (tags p)\<rparr>)
                 (db\<lparr>tag_table := objs\<rparr>))
      | Remove_tag \<Rightarrow>
          (case get_or_create course tag_name' (tag_table db) of
             ((ptag_pk, created), objs) \<Rightarrow>
               for_p_in_result result (\<lambda>p. p\<lparr>tags := tags p - {ptag_pk}\<rparr>)
                 (db\<lparr>tag_table := objs\<rparr>))
      | Drop \<Rightarrow>
          for_p_in_result result (\<lambda>p. p\<lparr>status := ''dropped''\<rparr>) db)"

definition query_participations :: "course \<Rightarrow> request \<Rightarrow> database
      \<Rightarrow> database \<times> message list \<times> participation list option" where
  "query_participations course req db =
     (case parse_lines course (enumerate 0 (split_newline (queries req))) None (tag_table db) of
        (Inl (lineno, e), objs) \<Rightarrow>
          (db\<lparr>tag_table := objs\<rparr>, [ERROR_in_line (lineno + 1) e], None)
      | (Inr None, objs) \<Rightarrow> (db\<lparr>tag_table := objs\<rparr>, [], None)
      | (Inr (Some parsed_query), objs) \<Rightarrow>
          (let db1 = db\<lparr>tag_table := objs\<rparr>;
               result = filter_participations course parsed_query (participations db1)
           in if apply_submitted req
              then (case apply_operation course (op req) (tag req) result db1 of
                      (db2, result') \<Rightarrow>
                        (db2, [INFO_operation_successful (length result)], Some result'))
              else (db1, [], Some result)))"

section \<open>Termination\<close>

text \<open>
  The lexer consumes at least one character per token. The parser consumes at least one
  token per call of \<open>inner_parse\<close> that returns, which is what makes the loop stop: the
  number of tokens left decreases from one iteration to the next.
\<close>

lemma matches_rule_pos: "matches_rule tbl s = Some (name, len, g) \<Longrightarrow> 0 < len"
  by (induction tbl s rule: matches_rule.induct) (auto split: option.splits if_splits)

termination lex
  by (relation "measure (\<lambda>(tbl, s, i). length s - i)") (auto dest: matches_rule_pos)

declare lex.simps [simp del]

definition remaining :: "pstate \<Rightarrow> nat" where
  "remaining ps = length (lexed ps) - index ps"

lemma parse_terminal_consumes:
  "parse_terminal course ps = (Return q, ps1) \<Longrightarrow> remaining ps1 < remaining ps"
  by (auto simp: parse_terminal_def next_tag_def advance_def remaining_def
           split: outcome.splits if_splits option.splits prod.splits)

lemma remaining_advance: "remaining (advance ps) \<le> remaining ps"
  by (simp add: remaining_def advance_def)

lemma inner_parse_dom_consumes:
  "inner_parse_while_did_something_dom (Inl (course, ps, m)) \<Longrightarrow>
     inner_parse course ps m = (Return q, ps1) \<Longrightarrow> remaining ps1 < remaining ps"
  "inner_parse_while_did_something_dom (Inr (course, left_query, ps, m)) \<Longrightarrow>
     while_did_something course left_query ps m = (Return q, ps1) \<Longrightarrow> remaining ps1 \<le> remaining ps"
proof (induction course ps m and course left_query ps m arbitrary: q ps1 and q ps1
       rule: inner_parse_while_did_something.pinduct)
  case (1 course ps m)
  show ?case
  proof (cases "is_at_end ps")
    case True
    with "1.hyps" "1.prems" show ?thesis by (simp add: inner_parse.psimps)
  next
    case nend: False
    show ?thesis
    proof (cases "is_next T_not ps")
      case True
      obtain r y where ry: "inner_parse course (advance ps) PREC_NOT = (r, y)" by force
      with "1.hyps" "1.prems" nend True obtain x2 where r: "r = Return x2"
        and w: "while_did_something course (QNot x2) y m = (Return q, ps1)"
        by (cases r) (simp_all add: inner_parse.psimps)
      from "1.IH"(1)[OF nend True] ry r have "remaining y < remaining (advance ps)" by simp
      moreover from "1.IH"(2)[OF nend True ry[symmetric] r w] have "remaining ps1 \<le> remaining y" .
      ultimately show ?thesis using remaining_advance[of ps] by simp
    next
      case nnot: False
      show ?thesis
      proof (cases "is_next T_openpar ps")
        case True
        obtain r y where ry: "inner_parse course (advance ps) 0 = (r, y)" by force
        with "1.hyps" "1.prems" nend nnot True obtain x2 where r: "r = Return x2"
          and e: "\<not> is_at_end y" and c: "\<not> \<not> is_next T_closepar y"
          and w: "while_did_something course x2 (advance y) m = (Return q, ps1)"
          by (cases r) (auto simp add: inner_parse.psimps split: if_splits)
        from "1.IH"(3)[OF nend nnot True] ry r have "remaining y < remaining (advance ps)" by simp
        moreover from "1.IH"(4)[OF nend nnot True ry[symmetric] r e c w]
        have "remaining ps1 \<le> remaining (advance y)" .
        ultimately show ?thesis using remaining_advance[of ps] remaining_advance[of y] by simp
      next
        case nopen: False
        obtain r y where ry: "parse_terminal course ps = (r, y)" by force
        with "1.hyps" "1.prems" nend nnot nopen obtain x2 where r: "r = Return x2"
          and w: "while_did_something course x2 y m = (Return q, ps1)"
          by (cases r) (auto simp add: inner_parse.psimps split: if_splits)
        from parse_terminal_consumes ry r have "remaining y < remaining ps" by simp
        moreover from "1.IH"(5)[OF nend nnot nopen ry[symmetric] r w] have "remaining ps1 \<le> remaining y" .
        ultimately show ?thesis by simp
      qed
    qed
  qed
next
  case (2 course left_query ps m)
  show ?case
  proof (cases "is_at_end ps")
    case True
    with "2.hyps" "2.prems" show ?thesis by (simp add: while_did_something.psimps)
  next
    case nend: False
    then obtain t where t: "next_tag ps = Return t"
      by (auto simp: next_tag_def is_at_end_def)
    show ?thesis
    proof (cases "t = T_and \<and> PREC_AND > m")
      case True
      obtain r y where ry: "inner_parse course (advance ps) PREC_AND = (r, y)" by force
      from "2.prems" have "(case inner_parse course (advance ps) PREC_AND of
             (Raise e, ps1) \<Rightarrow> (Raise e, ps1)
           | (Return q, ps1) \<Rightarrow> while_did_something course (QAnd left_query q) ps1 m)
           = (Return q, ps1)"
        by (simp only: while_did_something.psimps[OF "2.hyps"] if_not_P[OF nend] t outcome.case
              if_P[OF True])
      with ry obtain x2 where r: "r = Return x2"
        and w: "while_did_something course (QAnd left_query x2) y m = (Return q, ps1)"
        by (cases r) simp_all
      from "2.IH"(1)[OF nend t True] ry r have "remaining y < remaining (advance ps)" by simp
      moreover from "2.IH"(2)[OF nend t True ry[symmetric] r w] have "remaining ps1 \<le> remaining y" .
      ultimately show ?thesis using remaining_advance[of ps] by simp
    next
      case nand: False
      show ?thesis
      proof (cases "t = T_or \<and> PREC_OR > m")
        case True
        obtain r y where ry: "inner_parse course (advance ps) PREC_OR = (r, y)" by force
        from "2.prems" have "(case inner_parse course (advance ps) PREC_OR of
               (Raise e, ps1) \<Rightarrow> (Raise e, ps1)
             | (Return q, ps1) \<Rightarrow> while_did_something course (QOr left_query q) ps1 m)
             = (Return q, ps1)"
          by (simp only: while_did_something.psimps[OF "2.hyps"] if_not_P[OF nend] t outcome.case
                if_not_P[OF nand] if_P[OF True])
        with ry obtain x2 where r: "r = Return x2"
          and w: "while_did_something course (QOr left_query x2) y m = (Return q, ps1)"
          by (cases r) simp_all
        from "2.IH"(3)[OF nend t nand True] ry r have "remaining y < remaining (advance ps)" by simp
        moreover from "2.IH"(4)[OF nend t nand True ry[symmetric] r w]
        have "remaining ps1 \<le> remaining y" .
        ultimately show ?thesis using remaining_advance[of ps] by simp
      next
        case nor: False
        show ?thesis
        proof (cases "t \<in> set (TERMINALS @ [T_not, T_openpar]) \<and> PREC_AND > m")
          case True
          obtain r y where ry: "inner_parse course ps PREC_AND = (r, y)" by force
          from "2.prems" have "(case inner_parse course ps PREC_AND of
                 (Raise e, ps1) \<Rightarrow> (Raise e, ps1)
               | (Return q, ps1) \<Rightarrow> while_did_something course (QAnd left_query q) ps1 m)
               = (Return q, ps1)"
            by (simp only: while_did_something.psimps[OF "2.hyps"] if_not_P[OF nend] t outcome.case
                  if_not_P[OF nand] if_not_P[OF nor] if_P[OF True])
          with ry obtain x2 where r: "r = Return x2"
            and w: "while_did_something course (QAnd left_query x2) y m = (Return q, ps1)"
            by (cases r) simp_all
          from "2.IH"(5)[OF nend t nand nor True] ry r have "remaining y < remaining ps" by simp
          moreover from "2.IH"(6)[OF nend t nand nor True ry[symmetric] r w]
          have "remaining ps1 \<le> remaining y" .
          ultimately show ?thesis by simp
        next
          case False
          from "2.prems" have "(Return left_query, ps) = (Return q, ps1)"
            by (simp only: while_did_something.psimps[OF "2.hyps"] if_not_P[OF nend] t outcome.case
                  if_not_P[OF nand] if_not_P[OF nor] if_not_P[OF False])
          then show ?thesis by simp
        qed
      qed
    qed
  qed
qed

termination inner_parse
proof (relation "measure (\<lambda>x. case x of
          Inl (course, ps, m) \<Rightarrow> 2 * remaining ps
        | Inr (course, left_query, ps, m) \<Rightarrow> 2 * remaining ps + 1)", goal_cases)
  case 1
  show ?case by simp
next
  case (2 course ps m)
  then show ?case by (simp add: is_at_end_def remaining_def advance_def)
next
  case (3 course ps m x y x2)
  from inner_parse_dom_consumes(1)[OF 3(5)] 3(3)[symmetric] 3(4)
  have "remaining y < remaining (advance ps)" by simp
  then show ?case using remaining_advance[of ps] by simp
next
  case (4 course ps m)
  then show ?case by (simp add: is_at_end_def remaining_def advance_def)
next
  case (5 course ps m x y x2)
  from inner_parse_dom_consumes(1)[OF 5(8)] 5(4)[symmetric] 5(5)
  have "remaining y < remaining (advance ps)" by simp
  then show ?case using remaining_advance[of ps] remaining_advance[of y] by simp
next
  case (6 course ps m x y x2)
  from 6(4)[symmetric] 6(5) show ?case using parse_terminal_consumes[of course ps x2 y] by simp
next
  case (7 course left_query ps m t)
  then show ?case by (simp add: is_at_end_def remaining_def advance_def)
next
  case (8 course left_query ps m t x y x2)
  from inner_parse_dom_consumes(1)[OF 8(6)] 8(4)[symmetric] 8(5)
  have "remaining y < remaining (advance ps)" by simp
  then show ?case using remaining_advance[of ps] by simp
next
  case (9 course left_query ps m t)
  then show ?case by (simp add: is_at_end_def remaining_def advance_def)
next
  case (10 course left_query ps m t x y x2)
  from inner_parse_dom_consumes(1)[OF 10(7)] 10(5)[symmetric] 10(6)
  have "remaining y < remaining (advance ps)" by simp
  then show ?case using remaining_advance[of ps] by simp
next
  case (11 course left_query ps m t)
  then show ?case by simp
next
  case (12 course left_query ps m t x y x2)
  from inner_parse_dom_consumes(1)[OF 12(8)] 12(6)[symmetric] 12(7)
  have "remaining y < remaining ps" by simp
  then show ?case by simp
qed

declare inner_parse.simps [simp del] while_did_something.simps [simp del]

section \<open>The runs of the parser as a relation\<close>

text \<open>
  One rule per path through \<open>inner_parse\<close> and through one iteration of its loop. Every run
  of the functions is a derivation (\<open>inner_parse_parses\<close>), so a property of all runs is
  proved by rule induction.
\<close>

inductive parses :: "course \<Rightarrow> pstate \<Rightarrow> nat \<Rightarrow> Q outcome \<Rightarrow> pstate \<Rightarrow> bool"
  and loops :: "course \<Rightarrow> Q \<Rightarrow> pstate \<Rightarrow> nat \<Rightarrow> Q outcome \<Rightarrow> pstate \<Rightarrow> bool"
where
  P_end: "is_at_end ps \<Longrightarrow>
      parses c ps m (Raise (ParseError ''unexpected end of input'')) ps"
| P_not_raise: "\<not> is_at_end ps \<Longrightarrow> is_next T_not ps \<Longrightarrow>
      parses c (advance ps) PREC_NOT (Raise e) ps1 \<Longrightarrow> parses c ps m (Raise e) ps1"
| P_not: "\<not> is_at_end ps \<Longrightarrow> is_next T_not ps \<Longrightarrow>
      parses c (advance ps) PREC_NOT (Return q) ps1 \<Longrightarrow>
      loops c (QNot q) ps1 m r ps2 \<Longrightarrow> parses c ps m r ps2"
| P_par_raise: "\<not> is_at_end ps \<Longrightarrow> \<not> is_next T_not ps \<Longrightarrow> is_next T_openpar ps \<Longrightarrow>
      parses c (advance ps) 0 (Raise e) ps1 \<Longrightarrow> parses c ps m (Raise e) ps1"
| P_par_end: "\<not> is_at_end ps \<Longrightarrow> \<not> is_next T_not ps \<Longrightarrow> is_next T_openpar ps \<Longrightarrow>
      parses c (advance ps) 0 (Return q) ps1 \<Longrightarrow> is_at_end ps1 \<Longrightarrow>
      parses c ps m (Raise (ParseError ''unexpected end of input'')) ps1"
| P_par_open: "\<not> is_at_end ps \<Longrightarrow> \<not> is_next T_not ps \<Longrightarrow> is_next T_openpar ps \<Longrightarrow>
      parses c (advance ps) 0 (Return q) ps1 \<Longrightarrow> \<not> is_at_end ps1 \<Longrightarrow>
      \<not> is_next T_closepar ps1 \<Longrightarrow>
      parses c ps m (Raise (expected ''closepar'' ps1)) ps1"
| P_par: "\<not> is_at_end ps \<Longrightarrow> \<not> is_next T_not ps \<Longrightarrow> is_next T_openpar ps \<Longrightarrow>
      parses c (advance ps) 0 (Return q) ps1 \<Longrightarrow> \<not> is_at_end ps1 \<Longrightarrow>
      is_next T_closepar ps1 \<Longrightarrow>
      loops c q (advance ps1) m r ps2 \<Longrightarrow> parses c ps m r ps2"
| P_term_raise: "\<not> is_at_end ps \<Longrightarrow> \<not> is_next T_not ps \<Longrightarrow> \<not> is_next T_openpar ps \<Longrightarrow>
      parse_terminal c ps = (Raise e, ps1) \<Longrightarrow> parses c ps m (Raise e) ps1"
| P_term: "\<not> is_at_end ps \<Longrightarrow> \<not> is_next T_not ps \<Longrightarrow> \<not> is_next T_openpar ps \<Longrightarrow>
      parse_terminal c ps = (Return q, ps1) \<Longrightarrow>
      loops c q ps1 m r ps2 \<Longrightarrow> parses c ps m r ps2"
| L_end: "is_at_end ps \<Longrightarrow> loops c l ps m (Return l) ps"
| L_and_raise: "\<not> is_at_end ps \<Longrightarrow> next_tag ps = Return T_and \<Longrightarrow> PREC_AND > m \<Longrightarrow>
      parses c (advance ps) PREC_AND (Raise e) ps1 \<Longrightarrow> loops c l ps m (Raise e) ps1"
| L_and: "\<not> is_at_end ps \<Longrightarrow> next_tag ps = Return T_and \<Longrightarrow> PREC_AND > m \<Longrightarrow>
      parses c (advance ps) PREC_AND (Return q) ps1 \<Longrightarrow>
      loops c (QAnd l q) ps1 m r ps2 \<Longrightarrow> loops c l ps m r ps2"
| L_or_raise: "\<not> is_at_end ps \<Longrightarrow> next_tag ps = Return T_or \<Longrightarrow> PREC_OR > m \<Longrightarrow>
      parses c (advance ps) PREC_OR (Raise e) ps1 \<Longrightarrow> loops c l ps m (Raise e) ps1"
| L_or: "\<not> is_at_end ps \<Longrightarrow> next_tag ps = Return T_or \<Longrightarrow> PREC_OR > m \<Longrightarrow>
      parses c (advance ps) PREC_OR (Return q) ps1 \<Longrightarrow>
      loops c (QOr l q) ps1 m r ps2 \<Longrightarrow> loops c l ps m r ps2"
| L_implicit_raise: "\<not> is_at_end ps \<Longrightarrow> next_tag ps = Return t \<Longrightarrow>
      t \<in> set (TERMINALS @ [T_not, T_openpar]) \<Longrightarrow> PREC_AND > m \<Longrightarrow>
      parses c ps PREC_AND (Raise e) ps1 \<Longrightarrow> loops c l ps m (Raise e) ps1"
| L_implicit: "\<not> is_at_end ps \<Longrightarrow> next_tag ps = Return t \<Longrightarrow>
      t \<in> set (TERMINALS @ [T_not, T_openpar]) \<Longrightarrow> PREC_AND > m \<Longrightarrow>
      parses c ps PREC_AND (Return q) ps1 \<Longrightarrow>
      loops c (QAnd l q) ps1 m r ps2 \<Longrightarrow> loops c l ps m r ps2"
| L_stop: "\<not> is_at_end ps \<Longrightarrow> next_tag ps = Return t \<Longrightarrow>
      \<not> (t = T_and \<and> PREC_AND > m) \<Longrightarrow> \<not> (t = T_or \<and> PREC_OR > m) \<Longrightarrow>
      \<not> (t \<in> set (TERMINALS @ [T_not, T_openpar]) \<and> PREC_AND > m) \<Longrightarrow>
      loops c l ps m (Return l) ps"

lemma not_at_end_next_tag: "\<not> is_at_end ps \<Longrightarrow> \<exists>t. next_tag ps = Return t"
  by (simp add: is_at_end_def next_tag_def)

lemma next_tag_Raise: "next_tag ps = Raise e \<Longrightarrow> is_at_end ps"
  by (simp add: is_at_end_def next_tag_def split: if_splits)

lemma L_implicit_alt:
  "\<not> is_at_end ps \<Longrightarrow> next_tag ps = Return t \<Longrightarrow>
     t = T_not \<or> t = T_openpar \<or> t \<in> set TERMINALS \<Longrightarrow> PREC_AND > m \<Longrightarrow>
     parses c ps PREC_AND (Return q) ps1 \<Longrightarrow>
     loops c (QAnd l q) ps1 m r ps2 \<Longrightarrow> loops c l ps m r ps2"
  "\<not> is_at_end ps \<Longrightarrow> next_tag ps = Return t \<Longrightarrow>
     t = T_not \<or> t = T_openpar \<or> t \<in> set TERMINALS \<Longrightarrow> PREC_AND > m \<Longrightarrow>
     parses c ps PREC_AND (Raise e) ps1 \<Longrightarrow> loops c l ps m (Raise e) ps1"
  by (auto intro: L_implicit L_implicit_raise)

lemma inner_parse_parses:
  "inner_parse c ps m = (r, ps1) \<Longrightarrow> parses c ps m r ps1"
  "while_did_something c l ps m = (r, ps1) \<Longrightarrow> loops c l ps m r ps1"
proof (induction c ps m and c l ps m arbitrary: r ps1 and r ps1
       rule: inner_parse_while_did_something.induct)
  case (1 c ps m)
  from "1.prems" show ?case
    apply (subst (asm) inner_parse.simps)
    using "1.IH"
    apply (auto split: if_splits prod.splits outcome.splits
               intro: parses_loops.intros)
    done
next
  case (2 c l ps m)
  from "2.prems" show ?case
    apply (subst (asm) while_did_something.simps)
    using "2.IH"
    apply (auto split: if_splits prod.splits outcome.splits
               intro: parses_loops.intros L_implicit_alt dest: next_tag_Raise)
    apply (blast intro: L_implicit_alt(1))+
    done
qed

section \<open>What every run of the parser preserves\<close>

text \<open>
  A run never changes the token list, never moves the index back and only appends to the
  tag table; a run that returns has consumed at least one token.
\<close>

definition extends :: "pstate \<Rightarrow> pstate \<Rightarrow> bool" where
  "extends ps ps1 = (lexed ps1 = lexed ps \<and> index ps \<le> index ps1
      \<and> (\<exists>new. tag_objects ps1 = tag_objects ps @ new))"

lemma extends_refl: "extends ps ps"
  by (simp add: extends_def)

lemma extends_trans: "extends a b \<Longrightarrow> extends b c \<Longrightarrow> extends a c"
  by (auto simp: extends_def)

lemma extends_advance: "extends ps (advance ps)"
  by (simp add: extends_def advance_def)

lemma get_or_create_appends:
  "get_or_create course name objs = ((k, b), objs1) \<Longrightarrow> \<exists>new. objs1 = objs @ new"
  by (auto simp: get_or_create_def split: option.splits)

lemma parse_terminal_extends:
  "parse_terminal course ps = (r, ps1) \<Longrightarrow> extends ps ps1"
  by (auto simp: parse_terminal_def extends_def advance_def
           split: outcome.splits if_splits option.splits prod.splits
           dest: get_or_create_appends)

lemma parses_extends:
  "parses c ps m r ps1 \<Longrightarrow> extends ps ps1"
  "loops c l ps m r ps1 \<Longrightarrow> extends ps ps1"
  by (induction rule: parses_loops.inducts)
     (blast intro: extends_refl extends_trans extends_advance parse_terminal_extends)+

lemma parse_terminal_index:
  "parse_terminal c ps = (Return q, ps1) \<Longrightarrow> index ps1 = Suc (index ps)"
  by (auto simp: parse_terminal_def advance_def
           split: outcome.splits if_splits option.splits prod.splits)

lemma parses_consumes:
  "parses c ps m r ps1 \<Longrightarrow> r = Return q \<Longrightarrow> index ps < index ps1"
  "loops c l ps m r ps1 \<Longrightarrow> r = Return q \<Longrightarrow> index ps \<le> index ps1"
proof (induction arbitrary: q and q rule: parses_loops.inducts)
  case (P_not ps c q' ps1 m r ps2)
  then show ?case by (fastforce simp: advance_def)
next
  case (P_par ps c q' ps1 m r ps2)
  then show ?case by (fastforce simp: advance_def)
next
  case (P_term ps c q' ps1 m r ps2)
  then show ?case by (fastforce dest: parse_terminal_index)
next
  case (L_and ps m c q' ps1 l r ps2)
  then show ?case by (fastforce simp: advance_def)
next
  case (L_or ps m c q' ps1 l r ps2)
  then show ?case by (fastforce simp: advance_def)
next
  case (L_implicit ps t m c q' ps1 l r ps2)
  then show ?case by fastforce
qed simp_all

section \<open>The lexer: what a token of a given kind holds\<close>

lemma matches_rule_from_table:
  "matches_rule tbl s = Some (name, len, g) \<Longrightarrow>
     \<exists>rule. (name, rule) \<in> set tbl \<and> re_match rule s = Some (len, g)"
  by (induction tbl s rule: matches_rule.induct) (fastforce split: option.splits if_splits)+

lemma re_match_Group:
  "re_match (Group p cls) s = Some (len, g) \<Longrightarrow> g \<noteq> [] \<and> set g \<subseteq> set cls"
  by (auto simp: Let_def split: if_splits dest: set_takeWhileD)

lemma LEX_TABLE_id: "(T_id, rule) \<in> set LEX_TABLE \<Longrightarrow> rule = Group ''id:'' digit_chars"
  by (auto simp: LEX_TABLE_def)

lemma lex_tokens_matched:
  "lex tbl s i = Inr toks \<Longrightarrow> (name, lexeme, j, g) \<in> set toks \<Longrightarrow>
     \<exists>rule len. (name, rule) \<in> set tbl \<and> re_match rule (drop j s) = Some (len, g)"
proof (induction tbl s i arbitrary: toks rule: lex.induct)
  case (1 tbl s i)
  show ?case
  proof (cases "i < length s")
    case False
    with "1.prems" show ?thesis by (simp add: lex.simps[of tbl s i])
  next
    case True
    with "1.prems"(1) obtain name' len' g' rest where
      m: "matches_rule tbl (drop i s) = Some (name', len', g')"
      and rest: "lex tbl s (i + len') = Inr rest"
      and toks: "toks = (name', take len' (drop i s), i, g') # rest"
      by (auto simp: lex.simps[of tbl s i] split: option.splits sum.splits)
    from "1.prems"(2) toks consider "(name, lexeme, j, g) = (name', take len' (drop i s), i, g')"
      | "(name, lexeme, j, g) \<in> set rest" by auto
    then show ?thesis
    proof cases
      case 1
      with matches_rule_from_table[OF m] show ?thesis by auto
    next
      case 2
      from "1.IH"[OF True m refl refl rest 2] show ?thesis .
    qed
  qed
qed

lemma lex_filtered_id_digits:
  assumes "lex_filtered s = Inr toks" and "(T_id, lexeme, j, g) \<in> set toks"
  shows "g \<noteq> [] \<and> set g \<subseteq> set digit_chars"
proof -
  from assms obtain all_toks where "lex LEX_TABLE s 0 = Inr all_toks"
    and "(T_id, lexeme, j, g) \<in> set all_toks"
    by (auto simp: lex_filtered_def split: sum.splits)
  from lex_tokens_matched[OF this] obtain rule len where
    "(T_id, rule) \<in> set LEX_TABLE" and "re_match rule (drop j s) = Some (len, g)" by blast
  with LEX_TABLE_id show ?thesis by (auto dest: re_match_Group)
qed

lemma py_int_digits_ok: "g \<noteq> [] \<Longrightarrow> set g \<subseteq> set digit_chars \<Longrightarrow> py_int g = Some (py_int_digits g 0)"
  by (auto simp: py_int_def)

text \<open>
  C9. In every token list that the lexer returns, the capture of an \<^verbatim>\<open>id:\<close> token is a
  non-empty string of decimal digits, \<^verbatim>\<open>int\<close> of it is defined, and \<^verbatim>\<open>parse_terminal\<close> at such a
  token returns the lookup on the user id instead of raising.
\<close>

theorem id_token_int_conversion_total:
  assumes "lex_filtered s = Inr toks" and "i < length toks" and "fst (toks ! i) = T_id"
  shows "snd (snd (snd (toks ! i))) \<noteq> [] \<and>
         set (snd (snd (snd (toks ! i)))) \<subseteq> set ''0123456789'' \<and>
         (\<exists>n. py_int (snd (snd (snd (toks ! i)))) = Some n \<and>
              parse_terminal c \<lparr>lexed = toks, index = i, tag_objects = objs\<rparr> =
                (Return (User_id n), \<lparr>lexed = toks, index = i + 1, tag_objects = objs\<rparr>))"
proof -
  obtain lexeme j g where t: "toks ! i = (T_id, lexeme, j, g)"
    using assms(3) by (cases "toks ! i") auto
  with assms(2) have "(T_id, lexeme, j, g) \<in> set toks" by (metis nth_mem)
  from lex_filtered_id_digits[OF assms(1) this] have g: "g \<noteq> []" "set g \<subseteq> set digit_chars"
    by simp_all
  then have "py_int g = Some (py_int_digits g 0)" by (rule py_int_digits_ok)
  with t g assms(2) show ?thesis
    by (simp add: parse_terminal_def next_tag_def next_match_obj_def advance_def digit_chars_def)
qed

theorem id_token_int_conversion_total_witness:
  "lex_filtered ''id:42 or id:007'' =
     Inr [(T_id, ''id:42'', 0, ''42''), (T_or, ''or'', 6, []), (T_id, ''id:007'', 9, ''007'')] \<and>
   py_int ''007'' = Some 7 \<and>
   parse_terminal 1 \<lparr>lexed = [(T_id, ''id:42'', 0, ''42''), (T_or, ''or'', 6, []),
                               (T_id, ''id:007'', 9, ''007'')], index = 2, tag_objects = []\<rparr> =
     (Return (User_id 7), \<lparr>lexed = [(T_id, ''id:42'', 0, ''42''), (T_or, ''or'', 6, []),
                               (T_id, ''id:007'', 9, ''007'')], index = 3, tag_objects = []\<rparr>)"
proof -
  have l: "lex_filtered ''id:42 or id:007'' =
     Inr [(T_id, ''id:42'', 0, ''42''), (T_or, ''or'', 6, []), (T_id, ''id:007'', 9, ''007'')]"
    by code_simp
  have v: "py_int ''007'' = Some 7" by code_simp
  from id_token_int_conversion_total[OF l, of 2 1 "[]"] v l show ?thesis by simp
qed

section \<open>Evaluating the parser on a query text\<close>

text \<open>
  The facts that unfold, for a text given character by character, the lexer, the state
  operations and the parser.
\<close>

lemmas lex_eval = lex_filtered_def lex.simps LEX_TABLE_def startswith_def
  word_chars_def digit_chars_def space_chars_def

lemmas parse_eval = parse_query_def is_at_end_def inner_parse.simps
  while_did_something.simps is_next_def next_tag_def advance_def parse_terminal_def
  next_match_obj_def expected_def TERMINALS_def PREC_AND_def PREC_OR_def PREC_NOT_def

text \<open>
  C1. The list \<^verbatim>\<open>_TERMINALS\<close> that the loop of \<^verbatim>\<open>inner_parse\<close> consults for an implicit
  \<^verbatim>\<open>and\<close> names eight of the ten terminal kinds: \<^verbatim>\<open>_has_started\<close> and \<^verbatim>\<open>_has_submitted\<close> are
  missing. A primary followed directly by \<^verbatim>\<open>has-started:quiz\<close> or \<^verbatim>\<open>has-submitted:quiz\<close> is
  therefore not extended; the parse stops there and \<^verbatim>\<open>parse_query\<close> raises for leftover input,
  while the same query with an explicit \<^verbatim>\<open>and\<close> returns the conjunction, and a following
  \<^verbatim>\<open>tagged:\<close> terminal does get its implicit \<^verbatim>\<open>and\<close>.
\<close>

theorem implicit_and_missing_for_flow_terminals:
  "parse_query c ''role:student has-started:quiz'' objs =
     (Raise (ParseError ''leftover input after completed parse''), objs) \<and>
   parse_query c ''role:student and has-started:quiz'' objs =
     (Return (QAnd (Role ''student'') (Flow_sessions [Flow_id ''quiz'', Fs_course c])), objs) \<and>
   parse_query c ''role:student has-submitted:quiz'' objs =
     (Raise (ParseError ''leftover input after completed parse''), objs) \<and>
   parse_query c ''role:student and has-submitted:quiz'' objs =
     (Return (QAnd (Role ''student'')
        (Flow_sessions [Flow_id ''quiz'', Fs_course c, In_progress False])), objs) \<and>
   parse_query c ''role:student status:active'' objs =
     parse_query c ''role:student and status:active'' objs \<and>
   T_has_started \<notin> set TERMINALS \<and> T_has_submitted \<notin> set TERMINALS"
proof (intro conjI)
  show "parse_query c ''role:student has-started:quiz'' objs =
     (Raise (ParseError ''leftover input after completed parse''), objs)"
    by (simp add: lex_eval parse_eval)
  show "parse_query c ''role:student and has-started:quiz'' objs =
     (Return (QAnd (Role ''student'') (Flow_sessions [Flow_id ''quiz'', Fs_course c])), objs)"
    by (simp add: lex_eval parse_eval)
  show "parse_query c ''role:student has-submitted:quiz'' objs =
     (Raise (ParseError ''leftover input after completed parse''), objs)"
    by (simp add: lex_eval parse_eval)
  show "parse_query c ''role:student and has-submitted:quiz'' objs =
     (Return (QAnd (Role ''student'')
        (Flow_sessions [Flow_id ''quiz'', Fs_course c, In_progress False])), objs)"
    by (simp add: lex_eval parse_eval)
  show "parse_query c ''role:student status:active'' objs =
     parse_query c ''role:student and status:active'' objs"
    by (simp add: lex_eval parse_eval)
qed (simp_all add: TERMINALS_def)

section \<open>The view on blank text\<close>

lemma parse_lines_blank:
  "\<forall>l \<in> set ls. strip l = [] \<Longrightarrow>
     parse_lines c (enumerate n ls) parsed_query objs = (Inr parsed_query, objs)"
  by (induction ls arbitrary: n) simp_all

text \<open>
  C10. When every line of the submitted text is empty after \<^verbatim>\<open>strip()\<close>, \<^verbatim>\<open>parsed_query\<close>
  stays \<^verbatim>\<open>None\<close>: the view adds no message, filters nothing, applies no operation even
  when the apply button was used, leaves the database as it was and returns no result.
\<close>

theorem blank_queries_do_nothing:
  assumes "\<forall>l \<in> set (split_newline (queries req)). strip l = []"
  shows "query_participations c req db = (db, [], None)"
  using parse_lines_blank[OF assms, of c 0 None "tag_table db"]
  by (simp add: query_participations_def)

theorem blank_queries_do_nothing_witness:
  "split_newline [CHR '' '', CHR 0x09, CHR 0x0A, CHR 0x0D, CHR 0x0A] =
     [[CHR '' '', CHR 0x09], [CHR 0x0D], []] \<and>
   strip [CHR '' '', CHR 0x09] = [] \<and> strip [CHR 0x0D] = [] \<and> strip [] = [] \<and>
   query_participations 1
     \<lparr>queries = [CHR '' '', CHR 0x09, CHR 0x0A, CHR 0x0D, CHR 0x0A],
      apply_submitted = True, op = Drop, tag = []\<rparr>
     \<lparr>tag_table = [],
      participations = [\<lparr>pk = 1, p_course = 1, user_id = 5, user_email = ''a@b.c'',
        user_username = ''a'', role = ''student'', status = ''active'', tags = {},
        flow_sessions = []\<rparr>]\<rparr> =
   (\<lparr>tag_table = [],
      participations = [\<lparr>pk = 1, p_course = 1, user_id = 5, user_email = ''a@b.c'',
        user_username = ''a'', role = ''student'', status = ''active'', tags = {},
        flow_sessions = []\<rparr>]\<rparr>, [], None)"
proof -
  have b: "\<forall>l \<in> set (split_newline ([CHR '' '', CHR 0x09, CHR 0x0A, CHR 0x0D, CHR 0x0A])).
      strip l = []"
    by (simp add: strip_def strip_chars_def space_chars_def)
  have s: "strip [CHR '' '', CHR 0x09] = [] \<and> strip [CHR 0x0D] = [] \<and> strip [] = []"
    by (simp add: strip_def strip_chars_def space_chars_def)
  show ?thesis
    using b s blank_queries_do_nothing[of "\<lparr>queries = [CHR '' '', CHR 0x09, CHR 0x0A, CHR 0x0D, CHR 0x0A],
      apply_submitted = True, op = Drop, tag = []\<rparr>" 1]
    by simp
qed

section \<open>The bulk operations\<close>

lemma find_pk_None: "find_pk k objs = None \<longleftrightarrow> k \<notin> set objs"
  by (induction objs) auto

lemma find_pk_Some: "find_pk k objs = Some i \<Longrightarrow> i < length objs \<and> objs ! i = k"
  by (induction objs arbitrary: i) (auto split: if_splits)

definition tags_exist :: "database \<Rightarrow> bool" where
  "tags_exist db = (\<forall>p \<in> set (participations db). \<forall>k \<in> tags p. k < length (tag_table db))"

text \<open>
  C7, as the code has it. \<^verbatim>\<open>remove_tag\<close> starts with the same \<^verbatim>\<open>get_or_create\<close> as
  \<^verbatim>\<open>apply_tag\<close>. When no tag of the given name exists for the course, the operation creates
  it, so the set of tags of the course grows by that tag; no participation holds the new
  tag, so removing it changes no participation, in the database or in the list.
  \<open>tags_exist\<close> is the referential integrity of the many-to-many relation: every key held
  by a participation is a row of the table.
\<close>

theorem remove_tag_absent_creates_tag:
  assumes "(c, name) \<notin> set (tag_table db)" and "tags_exist db"
    and "set result \<subseteq> set (participations db)"
  shows "apply_operation c Remove_tag name result db =
           (db\<lparr>tag_table := tag_table db @ [(c, name)]\<rparr>, result)"
proof -
  from assms(1) have g: "get_or_create c name (tag_table db) =
      ((length (tag_table db), True), tag_table db @ [(c, name)])"
    by (simp add: get_or_create_def find_pk_None[THEN iffD2])
  have keep: "p\<lparr>tags := tags p - {length (tag_table db)}\<rparr> = p"
    if "p \<in> set (participations db)" for p
  proof -
    from assms(2) that have "length (tag_table db) \<notin> tags p" by (auto simp: tags_exist_def)
    then have "tags p - {length (tag_table db)} = tags p" by simp
    then show ?thesis by simp
  qed
  have "update_matched result (\<lambda>p. p\<lparr>tags := tags p - {length (tag_table db)}\<rparr>)
          (participations db) = participations db"
    unfolding update_matched_def by (rule map_idI) (simp add: keep)
  moreover have "map (\<lambda>p. p\<lparr>tags := tags p - {length (tag_table db)}\<rparr>) result = result"
    using assms(3) by (intro map_idI keep) auto
  ultimately show ?thesis using g by (simp add: apply_operation_def for_p_in_result_def)
qed

theorem remove_tag_absent_creates_tag_witness:
  "(1, ''late'') \<notin> set (tag_table \<lparr>tag_table = [(1, ''foo'')],
      participations = [\<lparr>pk = 1, p_course = 1, user_id = 5, user_email = ''a@b.c'',
        user_username = ''a'', role = ''student'', status = ''active'', tags = {0},
        flow_sessions = []\<rparr>]\<rparr>) \<and>
   tags_exist \<lparr>tag_table = [(1, ''foo'')],
      participations = [\<lparr>pk = 1, p_course = 1, user_id = 5, user_email = ''a@b.c'',
        user_username = ''a'', role = ''student'', status = ''active'', tags = {0},
        flow_sessions = []\<rparr>]\<rparr> \<and>
   apply_operation 1 Remove_tag ''late''
     [\<lparr>pk = 1, p_course = 1, user_id = 5, user_email = ''a@b.c'',
        user_username = ''a'', role = ''student'', status = ''active'', tags = {0},
        flow_sessions = []\<rparr>]
     \<lparr>tag_table = [(1, ''foo'')],
      participations = [\<lparr>pk = 1, p_course = 1, user_id = 5, user_email = ''a@b.c'',
        user_username = ''a'', role = ''student'', status = ''active'', tags = {0},
        flow_sessions = []\<rparr>]\<rparr> =
   (\<lparr>tag_table = [(1, ''foo''), (1, ''late'')],
      participations = [\<lparr>pk = 1, p_course = 1, user_id = 5, user_email = ''a@b.c'',
        user_username = ''a'', role = ''student'', status = ''active'', tags = {0},
        flow_sessions = []\<rparr>]\<rparr>,
    [\<lparr>pk = 1, p_course = 1, user_id = 5, user_email = ''a@b.c'',
        user_username = ''a'', role = ''student'', status = ''active'', tags = {0},
        flow_sessions = []\<rparr>])"
proof -
  let ?p = "\<lparr>pk = 1, p_course = 1, user_id = 5, user_email = ''a@b.c'',
        user_username = ''a'', role = ''student'', status = ''active'', tags = {0::nat},
        flow_sessions = []\<rparr>"
  let ?db = "\<lparr>tag_table = [(1::nat, ''foo'')], participations = [?p]\<rparr>"
  have a: "(1, ''late'') \<notin> set (tag_table ?db)" by simp
  have b: "tags_exist ?db" by (simp add: tags_exist_def)
  have c: "set [?p] \<subseteq> set (participations ?db)" by simp
  from remove_tag_absent_creates_tag[OF a b c] a b show ?thesis by simp
qed

text \<open>
  The claim as the specification words it, that the set of tags is left unchanged, fails
  on the empty table: afterwards the table holds the tag.
\<close>

theorem remove_tag_absent_changes_tags:
  "(1, ''late'') \<notin> set (tag_table \<lparr>tag_table = [], participations = []\<rparr>) \<and>
   tag_table (fst (apply_operation 1 Remove_tag ''late'' []
                     \<lparr>tag_table = [], participations = []\<rparr>))
     = [(1, ''late'')]"
  by (simp add: apply_operation_def for_p_in_result_def get_or_create_def update_matched_def)

section \<open>Errors of the parser\<close>

lemma parses_index_bound:
  "parses c ps m r ps1 \<Longrightarrow> index ps \<le> length (lexed ps) \<Longrightarrow> index ps1 \<le> length (lexed ps1)"
  "loops c l ps m r ps1 \<Longrightarrow> index ps \<le> length (lexed ps) \<Longrightarrow> index ps1 \<le> length (lexed ps1)"
proof (induction rule: parses_loops.inducts)
  case (P_term_raise ps c e ps1 m)
  then show ?case
    by (auto simp: parse_terminal_def advance_def is_at_end_def
             split: outcome.splits if_splits option.splits prod.splits)
next
  case (P_term ps c q ps1 m r ps2)
  then show ?case
    by (auto simp: parse_terminal_def advance_def is_at_end_def
             split: outcome.splits if_splits option.splits prod.splits)
qed (auto simp: advance_def is_at_end_def)

definition ids_ok :: "token list \<Rightarrow> bool" where
  "ids_ok toks = (\<forall>t \<in> set toks. fst t = T_id \<longrightarrow> py_int (snd (snd (snd t))) \<noteq> None)"

lemma lex_filtered_ids_ok: "lex_filtered s = Inr toks \<Longrightarrow> ids_ok toks"
  unfolding ids_ok_def
proof (intro ballI impI)
  fix t assume l: "lex_filtered s = Inr toks" and t: "t \<in> set toks" "fst t = T_id"
  then obtain lexeme j g where "t = (T_id, lexeme, j, g)" by (cases t) auto
  with lex_filtered_id_digits[OF l] t show "py_int (snd (snd (snd t))) \<noteq> None"
    by (auto simp: py_int_def)
qed

lemma parse_terminal_error_kind:
  assumes "parse_terminal c ps = (Raise e, ps1)" and "ids_ok (lexed ps)"
  shows "\<exists>msg. e = ParseError msg"
proof (cases "index ps < length (lexed ps)")
  case False
  with assms(1) show ?thesis by (auto simp: parse_terminal_def next_tag_def)
next
  case True
  then have "lexed ps ! index ps \<in> set (lexed ps)" by simp
  with assms(2) have "fst (lexed ps ! index ps) = T_id \<Longrightarrow>
      py_int (next_match_obj ps) \<noteq> None"
    by (auto simp: ids_ok_def next_match_obj_def)
  with assms(1) True show ?thesis
    by (auto simp: parse_terminal_def next_tag_def expected_def
             split: if_splits option.splits prod.splits)
qed

lemma parses_lexed:
  "parses c ps m r ps1 \<Longrightarrow> lexed ps1 = lexed ps"
  "loops c l ps m r ps1 \<Longrightarrow> lexed ps1 = lexed ps"
  using parses_extends by (auto simp: extends_def)

lemma parses_error_kind:
  "parses c ps m r ps1 \<Longrightarrow> ids_ok (lexed ps) \<Longrightarrow> r = Raise e \<Longrightarrow> \<exists>msg. e = ParseError msg"
  "loops c l ps m r ps1 \<Longrightarrow> ids_ok (lexed ps) \<Longrightarrow> r = Raise e \<Longrightarrow> \<exists>msg. e = ParseError msg"
proof (induction arbitrary: e and e rule: parses_loops.inducts)
  case (P_not ps c q ps1 m r ps2)
  then show ?case using parses_lexed(1)[OF P_not(3)] by (simp add: advance_def)
next
  case (P_par ps c q ps1 m r ps2)
  then show ?case using parses_lexed(1)[OF P_par(4)] by (simp add: advance_def)
next
  case (P_term_raise ps c e' ps1 m)
  then show ?case using parse_terminal_error_kind by auto
next
  case (P_term ps c q ps1 m r ps2)
  then show ?case using parse_terminal_extends[OF P_term(4)] by (simp add: extends_def)
next
  case (L_and ps m c q ps1 l r ps2)
  then show ?case using parses_lexed(1)[OF L_and(4)] by (simp add: advance_def)
next
  case (L_or ps m c q ps1 l r ps2)
  then show ?case using parses_lexed(1)[OF L_or(4)] by (simp add: advance_def)
next
  case (L_implicit ps t m c q ps1 l r ps2)
  then show ?case using parses_lexed(1)[OF L_implicit(5)] by simp
qed (auto simp: advance_def expected_def)

subsection \<open>Parentheses\<close>

text \<open>
  The tokens that a returning run consumes hold as many \<^verbatim>\<open>(\<close> as \<^verbatim>\<open>)\<close>. \<open>span_depth\<close>
  counts \<^verbatim>\<open>(\<close> as 1 and \<^verbatim>\<open>)\<close> as -1 over the tokens from one index up to another.
\<close>

definition paren_weight :: "token \<Rightarrow> int" where
  "paren_weight t = (if fst t = T_openpar then 1 else if fst t = T_closepar then - 1 else 0)"

definition paren_depth :: "token list \<Rightarrow> int" where
  "paren_depth toks = sum_list (map paren_weight toks)"

definition span_depth :: "token list \<Rightarrow> nat \<Rightarrow> nat \<Rightarrow> int" where
  "span_depth toks a b = (\<Sum>i = a..<b. paren_weight (toks ! i))"

lemma span_depth_split:
  "a \<le> b \<Longrightarrow> b \<le> d \<Longrightarrow> span_depth toks a d = span_depth toks a b + span_depth toks b d"
  by (simp add: span_depth_def sum.atLeastLessThan_concat)

lemma span_depth_first:
  "a < d \<Longrightarrow> span_depth toks a d = paren_weight (toks ! a) + span_depth toks (Suc a) d"
  by (simp add: span_depth_def sum.atLeast_Suc_lessThan)

lemma span_depth_first_split:
  assumes "Suc a \<le> b" and "b \<le> d"
  shows "span_depth toks a d =
           paren_weight (toks ! a) + span_depth toks (Suc a) b + span_depth toks b d"
proof -
  from assms have "a < d" by simp
  then have "span_depth toks a d = paren_weight (toks ! a) + span_depth toks (Suc a) d"
    by (rule span_depth_first)
  also have "span_depth toks (Suc a) d = span_depth toks (Suc a) b + span_depth toks b d"
    using assms by (rule span_depth_split)
  finally show ?thesis by simp
qed

lemma span_depth_empty: "span_depth toks a a = 0"
  by (simp add: span_depth_def)

lemma paren_depth_span: "paren_depth toks = span_depth toks 0 (length toks)"
  by (simp add: paren_depth_def span_depth_def sum_list_sum_nth)

lemma is_next_weight:
  "is_next t ps \<Longrightarrow> paren_weight (lexed ps ! index ps) =
     (if t = T_openpar then 1 else if t = T_closepar then - 1 else 0)"
  by (auto simp: is_next_def next_tag_def paren_weight_def)

lemma next_tag_weight:
  "next_tag ps = Return t \<Longrightarrow> paren_weight (lexed ps ! index ps) =
     (if t = T_openpar then 1 else if t = T_closepar then - 1 else 0)"
  by (auto simp: next_tag_def paren_weight_def split: if_splits)

lemma parse_terminal_weight:
  "parse_terminal c ps = (Return q, ps1) \<Longrightarrow> paren_weight (lexed ps ! index ps) = 0"
  by (auto simp: parse_terminal_def next_tag_def paren_weight_def
           split: outcome.splits if_splits option.splits prod.splits)

lemma parses_balanced:
  "parses c ps m r ps1 \<Longrightarrow> r = Return q \<Longrightarrow>
     span_depth (lexed ps) (index ps) (index ps1) = 0"
  "loops c l ps m r ps1 \<Longrightarrow> r = Return q \<Longrightarrow>
     span_depth (lexed ps) (index ps) (index ps1) = 0"
proof (induction arbitrary: q and q rule: parses_loops.inducts)
  case (P_not ps c q' ps1 m r ps2)
  have a: "Suc (index ps) \<le> index ps1"
    using parses_consumes(1)[OF P_not.hyps(3) refl] by (simp add: advance_def)
  have b: "index ps1 \<le> index ps2" using parses_consumes(2)[OF P_not.hyps(4) P_not.prems] .
  have l: "lexed ps1 = lexed ps" using parses_lexed(1)[OF P_not.hyps(3)] by (simp add: advance_def)
  have w: "paren_weight (lexed ps ! index ps) = 0" using is_next_weight[OF P_not.hyps(2)] by simp
  have i1: "span_depth (lexed ps) (Suc (index ps)) (index ps1) = 0"
    using P_not.IH(1)[OF refl] by (simp add: advance_def)
  have i2: "span_depth (lexed ps) (index ps1) (index ps2) = 0"
    using P_not.IH(2)[OF P_not.prems] l by simp
  show ?case unfolding span_depth_first_split[OF a b] w i1 i2 by simp
next
  case (P_par ps c q' ps1 m r ps2)
  have a: "Suc (index ps) \<le> index ps1"
    using parses_consumes(1)[OF P_par.hyps(4) refl] by (simp add: advance_def)
  have b: "Suc (index ps1) \<le> index ps2"
    using parses_consumes(2)[OF P_par.hyps(7) P_par.prems] by (simp add: advance_def)
  have l: "lexed ps1 = lexed ps" using parses_lexed(1)[OF P_par.hyps(4)] by (simp add: advance_def)
  have w: "paren_weight (lexed ps ! index ps) = 1" using is_next_weight[OF P_par.hyps(3)] by simp
  have w1: "paren_weight (lexed ps ! index ps1) = - 1"
    using is_next_weight[OF P_par.hyps(6)] l by simp
  have i1: "span_depth (lexed ps) (Suc (index ps)) (index ps1) = 0"
    using P_par.IH(1)[OF refl] by (simp add: advance_def)
  have i2: "span_depth (lexed ps) (Suc (index ps1)) (index ps2) = 0"
    using P_par.IH(2)[OF P_par.prems] l by (simp add: advance_def)
  from b have b': "index ps1 \<le> index ps2" and b'': "index ps1 < index ps2" by simp_all
  show ?case
    unfolding span_depth_first_split[OF a b'] span_depth_first[OF b''] w w1 i1 i2 by simp
next
  case (P_term ps c q' ps1 m r ps2)
  have i: "index ps1 = Suc (index ps)" using parse_terminal_index[OF P_term.hyps(4)] .
  have b: "index ps1 \<le> index ps2" using parses_consumes(2)[OF P_term.hyps(5) P_term.prems] .
  have l: "lexed ps1 = lexed ps"
    using parse_terminal_extends[OF P_term.hyps(4)] by (simp add: extends_def)
  have w: "paren_weight (lexed ps ! index ps) = 0" using parse_terminal_weight[OF P_term.hyps(4)] .
  have i2: "span_depth (lexed ps) (Suc (index ps)) (index ps2) = 0"
    using P_term.IH[OF P_term.prems] l i by simp
  from i b have lt: "index ps < index ps2" by simp
  show ?case unfolding span_depth_first[OF lt] w i2 by simp
next
  case (L_end ps c l m)
  show ?case by (simp add: span_depth_empty)
next
  case (L_and ps m c q' ps1 l r ps2)
  have a: "Suc (index ps) \<le> index ps1"
    using parses_consumes(1)[OF L_and.hyps(4) refl] by (simp add: advance_def)
  have b: "index ps1 \<le> index ps2" using parses_consumes(2)[OF L_and.hyps(5) L_and.prems] .
  have l: "lexed ps1 = lexed ps" using parses_lexed(1)[OF L_and.hyps(4)] by (simp add: advance_def)
  have w: "paren_weight (lexed ps ! index ps) = 0" using next_tag_weight[OF L_and.hyps(2)] by simp
  have i1: "span_depth (lexed ps) (Suc (index ps)) (index ps1) = 0"
    using L_and.IH(1)[OF refl] by (simp add: advance_def)
  have i2: "span_depth (lexed ps) (index ps1) (index ps2) = 0"
    using L_and.IH(2)[OF L_and.prems] l by simp
  show ?case unfolding span_depth_first_split[OF a b] w i1 i2 by simp
next
  case (L_or ps m c q' ps1 l r ps2)
  have a: "Suc (index ps) \<le> index ps1"
    using parses_consumes(1)[OF L_or.hyps(4) refl] by (simp add: advance_def)
  have b: "index ps1 \<le> index ps2" using parses_consumes(2)[OF L_or.hyps(5) L_or.prems] .
  have l: "lexed ps1 = lexed ps" using parses_lexed(1)[OF L_or.hyps(4)] by (simp add: advance_def)
  have w: "paren_weight (lexed ps ! index ps) = 0" using next_tag_weight[OF L_or.hyps(2)] by simp
  have i1: "span_depth (lexed ps) (Suc (index ps)) (index ps1) = 0"
    using L_or.IH(1)[OF refl] by (simp add: advance_def)
  have i2: "span_depth (lexed ps) (index ps1) (index ps2) = 0"
    using L_or.IH(2)[OF L_or.prems] l by simp
  show ?case unfolding span_depth_first_split[OF a b] w i1 i2 by simp
next
  case (L_implicit ps t m c q' ps1 l r ps2)
  have a: "index ps \<le> index ps1" using parses_consumes(1)[OF L_implicit.hyps(5) refl] by simp
  have b: "index ps1 \<le> index ps2"
    using parses_consumes(2)[OF L_implicit.hyps(6) L_implicit.prems] .
  have l: "lexed ps1 = lexed ps" using parses_lexed(1)[OF L_implicit.hyps(5)] .
  have i1: "span_depth (lexed ps) (index ps) (index ps1) = 0" using L_implicit.IH(1)[OF refl] .
  have i2: "span_depth (lexed ps) (index ps1) (index ps2) = 0"
    using L_implicit.IH(2)[OF L_implicit.prems] l by simp
  show ?case unfolding span_depth_split[OF a b] i1 i2 by simp
next
  case (L_stop ps t m c l)
  show ?case by (simp add: span_depth_empty)
qed simp_all

lemma parse_query_unbalanced:
  assumes l: "lex_filtered s = Inr toks" and d: "paren_depth toks \<noteq> 0"
  shows "\<exists>msg objs'. parse_query c s objs = (Raise (ParseError msg), objs')"
proof (cases "toks = []")
  case True
  with l show ?thesis by (simp add: parse_query_def is_at_end_def)
next
  case False
  let ?ps = "\<lparr>lexed = toks, index = 0, tag_objects = objs\<rparr>"
  obtain r ps1 where ip: "inner_parse c ?ps 0 = (r, ps1)" by force
  then have p: "parses c ?ps 0 r ps1" by (rule inner_parse_parses)
  show ?thesis
  proof (cases r)
    case (Raise e)
    from parses_error_kind(1)[OF p _ Raise] lex_filtered_ids_ok[OF l]
    obtain msg where "e = ParseError msg" by auto
    with l False ip Raise show ?thesis by (simp add: parse_query_def is_at_end_def)
  next
    case (Return q)
    show ?thesis
    proof (cases "is_at_end ps1")
      case False
      with l \<open>toks \<noteq> []\<close> ip Return show ?thesis by (simp add: parse_query_def is_at_end_def)
    next
      case True
      from parses_index_bound(1)[OF p] have "index ps1 \<le> length (lexed ps1)" by simp
      moreover from parses_lexed(1)[OF p] have "lexed ps1 = toks" by simp
      ultimately have "index ps1 = length toks" using True by (simp add: is_at_end_def)
      with parses_balanced(1)[OF p Return] have "span_depth toks 0 (length toks) = 0" by simp
      with d show ?thesis by (simp add: paren_depth_span)
    qed
  qed
qed

text \<open>
  C8. \<^verbatim>\<open>parse_query\<close> raises a \<^verbatim>\<open>ParseError\<close>, and so returns no predicate,
  \<^item> when the token list is empty;
  \<^item> when the tokens do not hold as many \<^verbatim>\<open>(\<close> as \<^verbatim>\<open>)\<close>, which covers every group that is
    left open;
  \<^item> when \<^verbatim>\<open>inner_parse\<close> returns before the end of the tokens (leftover input).
  The query \<^verbatim>\<open>role:student role:student and\<close> raises a \<^verbatim>\<open>ParseError\<close> too, from inside
  \<^verbatim>\<open>inner_parse\<close>: the operand of the trailing \<^verbatim>\<open>and\<close> is missing.
\<close>

theorem parse_query_raises_parse_error:
  "(lex_filtered s = Inr [] \<longrightarrow>
      parse_query c s objs = (Raise (ParseError ''unexpected end of input''), objs)) \<and>
   (lex_filtered s = Inr toks \<and> paren_depth toks \<noteq> 0 \<longrightarrow>
      (\<exists>msg objs'. parse_query c s objs = (Raise (ParseError msg), objs'))) \<and>
   (lex_filtered s = Inr toks \<and> toks \<noteq> [] \<and>
    inner_parse c \<lparr>lexed = toks, index = 0, tag_objects = objs\<rparr> 0 = (Return q, ps1) \<and>
    \<not> is_at_end ps1 \<longrightarrow>
      parse_query c s objs =
        (Raise (ParseError ''leftover input after completed parse''), tag_objects ps1)) \<and>
   parse_query c ''role:student role:student and'' objs =
     (Raise (ParseError ''unexpected end of input''), objs)"
proof (intro conjI impI)
  assume "lex_filtered s = Inr []"
  then show "parse_query c s objs = (Raise (ParseError ''unexpected end of input''), objs)"
    by (simp add: parse_query_def is_at_end_def)
next
  assume "lex_filtered s = Inr toks \<and> paren_depth toks \<noteq> 0"
  then show "\<exists>msg objs'. parse_query c s objs = (Raise (ParseError msg), objs')"
    using parse_query_unbalanced by blast
next
  assume "lex_filtered s = Inr toks \<and> toks \<noteq> [] \<and>
    inner_parse c \<lparr>lexed = toks, index = 0, tag_objects = objs\<rparr> 0 = (Return q, ps1) \<and>
    \<not> is_at_end ps1"
  then show "parse_query c s objs =
        (Raise (ParseError ''leftover input after completed parse''), tag_objects ps1)"
    by (simp add: parse_query_def is_at_end_def)
next
  show "parse_query c ''role:student role:student and'' objs =
     (Raise (ParseError ''unexpected end of input''), objs)"
    by (simp add: lex_eval parse_eval)
qed

theorem parse_query_raises_parse_error_witness:
  "parse_query 1 [] [] = (Raise (ParseError ''unexpected end of input''), []) \<and>
   paren_depth [(T_openpar, ''('', 0, []), (T_role, ''role:student'', 1, ''student'')] = 1 \<and>
   (\<exists>msg objs'. parse_query 1 ''(role:student'' [] = (Raise (ParseError msg), objs')) \<and>
   parse_query 1 ''role:student )'' [] =
     (Raise (ParseError ''leftover input after completed parse''), [])"
proof -
  have l0: "lex_filtered [] = Inr []" by code_simp
  have l1: "lex_filtered ''(role:student'' =
      Inr [(T_openpar, ''('', 0, []), (T_role, ''role:student'', 1, ''student'')]"
    by code_simp
  have d1: "paren_depth [(T_openpar, ''('', 0, []), (T_role, ''role:student'', 1, ''student'')] = 1"
    by (simp add: paren_depth_def paren_weight_def)
  have l2: "lex_filtered ''role:student )'' =
      Inr [(T_role, ''role:student'', 0, ''student''), (T_closepar, '')'', 13, [])]"
    by code_simp
  have i2: "inner_parse 1 \<lparr>lexed = [(T_role, ''role:student'', 0, ''student''),
        (T_closepar, '')'', 13, [])], index = 0, tag_objects = []\<rparr> 0 =
      (Return (Role ''student''), \<lparr>lexed = [(T_role, ''role:student'', 0, ''student''),
        (T_closepar, '')'', 13, [])], index = 1, tag_objects = []\<rparr>)"
    by (simp add: parse_eval)
  from parse_query_raises_parse_error[of "[]" 1 "[]"] l0
  have a: "parse_query 1 [] [] = (Raise (ParseError ''unexpected end of input''), [])" by simp
  from parse_query_raises_parse_error[of "''(role:student''" 1 "[]"
      "[(T_openpar, ''('', 0, []), (T_role, ''role:student'', 1, ''student'')]"] l1 d1
  have b: "\<exists>msg objs'. parse_query 1 ''(role:student'' [] = (Raise (ParseError msg), objs')"
    by simp
  from parse_query_raises_parse_error[of "''role:student )''" 1 "[]"
      "[(T_role, ''role:student'', 0, ''student''), (T_closepar, '')'', 13, [])]"
      "Role ''student''"
      "\<lparr>lexed = [(T_role, ''role:student'', 0, ''student''),
        (T_closepar, '')'', 13, [])], index = 1, tag_objects = []\<rparr>"] l2 i2
  have c: "parse_query 1 ''role:student )'' [] =
     (Raise (ParseError ''leftover input after completed parse''), [])"
    by (simp add: is_at_end_def)
  from a b c d1 show ?thesis by simp
qed

section \<open>Tags created while parsing\<close>

definition tags_created :: "course \<Rightarrow> token list \<Rightarrow> nat \<Rightarrow> nat \<Rightarrow> tag_table \<Rightarrow> bool" where
  "tags_created c toks a b objs =
     (\<forall>i. a \<le> i \<and> i < b \<and> fst (toks ! i) = T_tagged
          \<longrightarrow> (c, snd (snd (snd (toks ! i)))) \<in> set objs)"

lemma tags_created_mono:
  "tags_created c toks a b objs \<Longrightarrow> set objs \<subseteq> set objs' \<Longrightarrow> tags_created c toks a b objs'"
  by (auto simp: tags_created_def)

lemma tags_created_join:
  "tags_created c toks a b objs \<Longrightarrow> tags_created c toks b d objs \<Longrightarrow>
     tags_created c toks a d objs"
  by (auto simp: tags_created_def) (metis not_less)

lemma tags_created_skip:
  "fst (toks ! a) \<noteq> T_tagged \<Longrightarrow> tags_created c toks (Suc a) d objs \<Longrightarrow>
     tags_created c toks a d objs"
  by (auto simp: tags_created_def) (metis Suc_leI le_neq_implies_less)

lemma tags_created_empty: "tags_created c toks a a objs"
  by (auto simp: tags_created_def)

lemma extends_tags: "extends ps ps1 \<Longrightarrow> set (tag_objects ps) \<subseteq> set (tag_objects ps1)"
  by (auto simp: extends_def)

lemma get_or_create_mem:
  "get_or_create c name objs = ((k, b), objs1) \<Longrightarrow> (c, name) \<in> set objs1"
  by (auto simp: get_or_create_def find_pk_None split: option.splits)
     (metis find_pk_None option.distinct(1))

lemma parse_terminal_creates:
  "parse_terminal c ps = (Return q, ps1) \<Longrightarrow>
     tags_created c (lexed ps) (index ps) (index ps1) (tag_objects ps1)"
  by (auto simp: parse_terminal_def next_tag_def advance_def tags_created_def next_match_obj_def
           le_less_Suc_eq
           split: outcome.splits if_splits option.splits prod.splits
           dest: get_or_create_mem)

lemma is_next_not_tagged: "is_next t ps \<Longrightarrow> t \<noteq> T_tagged \<Longrightarrow> fst (lexed ps ! index ps) \<noteq> T_tagged"
  by (auto simp: is_next_def next_tag_def)

lemma next_tag_not_tagged:
  "next_tag ps = Return t \<Longrightarrow> t \<noteq> T_tagged \<Longrightarrow> fst (lexed ps ! index ps) \<noteq> T_tagged"
  by (auto simp: next_tag_def split: if_splits)

lemma parses_creates_tags:
  "parses c ps m r ps1 \<Longrightarrow> r = Return q \<Longrightarrow>
     tags_created c (lexed ps) (index ps) (index ps1) (tag_objects ps1)"
  "loops c l ps m r ps1 \<Longrightarrow> r = Return q \<Longrightarrow>
     tags_created c (lexed ps) (index ps) (index ps1) (tag_objects ps1)"
proof (induction arbitrary: q and q rule: parses_loops.inducts)
  case (P_not ps c q' ps1 m r ps2)
  have l: "lexed ps1 = lexed ps" using parses_lexed(1)[OF P_not.hyps(3)] by (simp add: advance_def)
  have "tags_created c (lexed ps) (Suc (index ps)) (index ps1) (tag_objects ps2)"
    using P_not.IH(1)[OF refl] extends_tags[OF parses_extends(2)[OF P_not.hyps(4)]]
    by (auto simp: advance_def intro: tags_created_mono)
  moreover have "tags_created c (lexed ps) (index ps1) (index ps2) (tag_objects ps2)"
    using P_not.IH(2)[OF P_not.prems] l by simp
  ultimately show ?case
    using is_next_not_tagged[OF P_not.hyps(2)]
    by (auto intro: tags_created_skip tags_created_join)
next
  case (P_par ps c q' ps1 m r ps2)
  have l: "lexed ps1 = lexed ps" using parses_lexed(1)[OF P_par.hyps(4)] by (simp add: advance_def)
  have "tags_created c (lexed ps) (Suc (index ps)) (index ps1) (tag_objects ps2)"
    using P_par.IH(1)[OF refl] extends_tags[OF parses_extends(2)[OF P_par.hyps(7)]]
    by (auto simp: advance_def intro: tags_created_mono)
  moreover have "tags_created c (lexed ps) (Suc (index ps1)) (index ps2) (tag_objects ps2)"
    using P_par.IH(2)[OF P_par.prems] l by (simp add: advance_def)
  moreover have "fst (lexed ps ! index ps1) \<noteq> T_tagged"
    using is_next_not_tagged[OF P_par.hyps(6)] l by simp
  ultimately show ?case
    using is_next_not_tagged[OF P_par.hyps(3)]
    by (auto intro: tags_created_skip tags_created_join)
next
  case (P_term ps c q' ps1 m r ps2)
  have l: "lexed ps1 = lexed ps"
    using parse_terminal_extends[OF P_term.hyps(4)] by (simp add: extends_def)
  have "tags_created c (lexed ps) (index ps) (index ps1) (tag_objects ps2)"
    using parse_terminal_creates[OF P_term.hyps(4)]
      extends_tags[OF parses_extends(2)[OF P_term.hyps(5)]]
    by (auto intro: tags_created_mono)
  moreover have "tags_created c (lexed ps) (index ps1) (index ps2) (tag_objects ps2)"
    using P_term.IH[OF P_term.prems] l by simp
  ultimately show ?case by (rule tags_created_join)
next
  case (L_end ps c l m)
  show ?case by (rule tags_created_empty)
next
  case (L_and ps m c q' ps1 l r ps2)
  have l: "lexed ps1 = lexed ps" using parses_lexed(1)[OF L_and.hyps(4)] by (simp add: advance_def)
  have "tags_created c (lexed ps) (Suc (index ps)) (index ps1) (tag_objects ps2)"
    using L_and.IH(1)[OF refl] extends_tags[OF parses_extends(2)[OF L_and.hyps(5)]]
    by (auto simp: advance_def intro: tags_created_mono)
  moreover have "tags_created c (lexed ps) (index ps1) (index ps2) (tag_objects ps2)"
    using L_and.IH(2)[OF L_and.prems] l by simp
  ultimately show ?case
    using next_tag_not_tagged[OF L_and.hyps(2)]
    by (auto intro: tags_created_skip tags_created_join)
next
  case (L_or ps m c q' ps1 l r ps2)
  have l: "lexed ps1 = lexed ps" using parses_lexed(1)[OF L_or.hyps(4)] by (simp add: advance_def)
  have "tags_created c (lexed ps) (Suc (index ps)) (index ps1) (tag_objects ps2)"
    using L_or.IH(1)[OF refl] extends_tags[OF parses_extends(2)[OF L_or.hyps(5)]]
    by (auto simp: advance_def intro: tags_created_mono)
  moreover have "tags_created c (lexed ps) (index ps1) (index ps2) (tag_objects ps2)"
    using L_or.IH(2)[OF L_or.prems] l by simp
  ultimately show ?case
    using next_tag_not_tagged[OF L_or.hyps(2)]
    by (auto intro: tags_created_skip tags_created_join)
next
  case (L_implicit ps t m c q' ps1 l r ps2)
  have l: "lexed ps1 = lexed ps" using parses_lexed(1)[OF L_implicit.hyps(5)] .
  have "tags_created c (lexed ps) (index ps) (index ps1) (tag_objects ps2)"
    using L_implicit.IH(1)[OF refl] extends_tags[OF parses_extends(2)[OF L_implicit.hyps(6)]]
    by (auto intro: tags_created_mono)
  moreover have "tags_created c (lexed ps) (index ps1) (index ps2) (tag_objects ps2)"
    using L_implicit.IH(2)[OF L_implicit.prems] l by simp
  ultimately show ?case by (rule tags_created_join)
next
  case (L_stop ps t m c l)
  show ?case by (rule tags_created_empty)
qed simp_all

lemma parse_query_appends:
  assumes a: "parse_query c s objs = (r, objs1)"
  shows "\<exists>new. objs1 = objs @ new"
proof (cases "lex_filtered s")
  case (Inl e)
  with a show ?thesis by (simp add: parse_query_def)
next
  case (Inr toks)
  let ?ps = "\<lparr>lexed = toks, index = 0, tag_objects = objs\<rparr>"
  show ?thesis
  proof (cases "is_at_end ?ps")
    case True
    with a Inr show ?thesis by (simp add: parse_query_def)
  next
    case False
    obtain r' ps1 where ip: "inner_parse c ?ps 0 = (r', ps1)" by force
    from parses_extends(1)[OF inner_parse_parses(1)[OF ip]]
    have ex: "\<exists>new. tag_objects ps1 = objs @ new" by (auto simp: extends_def)
    from a Inr ip False have "objs1 = tag_objects ps1"
      by (cases r') (auto simp: parse_query_def Let_def split: if_splits)
    with ex show ?thesis by simp
  qed
qed

lemma parse_query_creates_tags:
  assumes pq: "parse_query c s objs = (Return q, objs1)"
    and l: "lex_filtered s = Inr toks"
    and t: "(T_tagged, lexeme, j, name) \<in> set toks"
  shows "(c, name) \<in> set objs1"
proof -
  let ?ps = "\<lparr>lexed = toks, index = 0, tag_objects = objs\<rparr>"
  obtain r' ps1 where ip: "inner_parse c ?ps 0 = (r', ps1)" by force
  with pq l have r': "r' = Return q" and e: "is_at_end ps1" and o: "objs1 = tag_objects ps1"
    by (cases r'; auto simp: parse_query_def Let_def split: if_splits)+
  have p: "parses c ?ps 0 r' ps1" using ip by (rule inner_parse_parses)
  from parses_lexed(1)[OF p] have lx: "lexed ps1 = toks" by simp
  from t obtain i where i: "i < length toks" "toks ! i = (T_tagged, lexeme, j, name)"
    by (auto simp: in_set_conv_nth)
  with e lx have "i < index ps1" by (simp add: is_at_end_def)
  with parses_creates_tags(1)[OF p r'] i o show ?thesis by (fastforce simp: tags_created_def)
qed

lemma lex_filtered_empty: "lex_filtered [] = Inr []"
  by (simp add: lex_filtered_def lex.simps)

lemma parse_lines_appends:
  "parse_lines c ls parsed_query objs = (r, objs1) \<Longrightarrow> \<exists>new. objs1 = objs @ new"
proof (induction ls arbitrary: parsed_query objs)
  case Nil
  then show ?case by simp
next
  case (Cons x ls)
  obtain lineno q where x: "x = (lineno, q)" by (cases x)
  show ?case
  proof (cases "strip q = []")
    case True
    with Cons x show ?thesis by simp
  next
    case False
    obtain r' objs' where pq: "parse_query c (strip q) objs = (r', objs')" by force
    from parse_query_appends[OF pq] obtain new where n: "objs' = objs @ new" by blast
    show ?thesis
    proof (cases r')
      case (Raise e)
      with Cons.prems x False pq n show ?thesis by auto
    next
      case (Return sub)
      with Cons.prems x False pq obtain acc where "parse_lines c ls acc objs' = (r, objs1)"
        by (cases parsed_query) auto
      from Cons.IH[OF this] n show ?thesis by auto
    qed
  qed
qed

lemma parse_lines_creates_tags:
  assumes "parse_lines c ls parsed_query objs = (Inr pq, objs1)"
    and "(n, l) \<in> set ls" and "lex_filtered (strip l) = Inr toks"
    and "(T_tagged, lexeme, j, name) \<in> set toks"
  shows "(c, name) \<in> set objs1"
  using assms
proof (induction ls arbitrary: parsed_query objs)
  case Nil
  then show ?case by simp
next
  case (Cons x ls)
  obtain lineno q where x: "x = (lineno, q)" by (cases x)
  show ?case
  proof (cases "strip q = []")
    case True
    with Cons.prems x have "(n, l) \<in> set ls"
      by (auto simp: lex_filtered_empty)
    with Cons True x show ?thesis by simp
  next
    case False
    obtain r' objs' where p: "parse_query c (strip q) objs = (r', objs')" by force
    with Cons.prems(1) x False obtain sub acc where r': "r' = Return sub"
      and rest: "parse_lines c ls acc objs' = (Inr pq, objs1)"
      by (cases r'; cases parsed_query) auto
    show ?thesis
    proof (cases "(n, l) = x")
      case True
      with x Cons.prems p r' have "(c, name) \<in> set objs'"
        using parse_query_creates_tags[of c "strip q" objs sub objs' toks lexeme j name] by simp
      with parse_lines_appends[OF rest] show ?thesis by auto
    next
      case False
      with Cons.prems have "(n, l) \<in> set ls" by simp
      from Cons.IH[OF rest this Cons.prems(3,4)] show ?thesis .
    qed
  qed
qed

lemma apply_operation_tag_table:
  "set (tag_table db) \<subseteq> set (tag_table (fst (apply_operation c operation name result db)))"
  by (cases operation)
     (auto simp: apply_operation_def for_p_in_result_def get_or_create_def
           split: option.splits prod.splits)

text \<open>
  C6. Every \<^verbatim>\<open>tagged:\<close> token of a query that compiles has its tag \<open>(course, name)\<close> in the
  table afterwards, and the table has only grown. The same holds for the table that the view
  leaves behind whenever it returns a result, and in list mode nothing else changes.
  \<^verbatim>\<open>parse_terminal\<close> at a \<^verbatim>\<open>tagged:\<close> token never raises: it returns the lookup on the key of
  the tag, which is the row appended now when the name was not in the table, and the table
  as it was otherwise.
\<close>

theorem tagged_reference_creates_tag:
  "(parse_query c s objs = (Return q, objs1) \<and> lex_filtered s = Inr toks \<and>
    (T_tagged, lexeme, j, name) \<in> set toks
      \<longrightarrow> (c, name) \<in> set objs1 \<and> (\<exists>new. objs1 = objs @ new)) \<and>
   (query_participations c req db = (db1, msgs, Some result) \<and>
    l \<in> set (split_newline (queries req)) \<and> lex_filtered (strip l) = Inr toks \<and>
    (T_tagged, lexeme, j, name) \<in> set toks
      \<longrightarrow> (c, name) \<in> set (tag_table db1) \<and>
          (\<not> apply_submitted req \<longrightarrow> participations db1 = participations db \<and> msgs = [])) \<and>
   (index ps < length (lexed ps) \<and> fst (lexed ps ! index ps) = T_tagged
      \<longrightarrow> (\<exists>k objs'. parse_terminal c ps =
                 (Return (Tags_pk k), advance (ps\<lparr>tag_objects := objs'\<rparr>)) \<and>
               k < length objs' \<and> objs' ! k = (c, next_match_obj ps) \<and>
               objs' = (if (c, next_match_obj ps) \<in> set (tag_objects ps) then tag_objects ps
                        else tag_objects ps @ [(c, next_match_obj ps)])))"
proof (intro conjI impI)
  assume a: "parse_query c s objs = (Return q, objs1) \<and> lex_filtered s = Inr toks \<and>
    (T_tagged, lexeme, j, name) \<in> set toks"
  then show "(c, name) \<in> set objs1" using parse_query_creates_tags by blast
  from a show "\<exists>new. objs1 = objs @ new" using parse_query_appends by blast
next
  assume a: "query_participations c req db = (db1, msgs, Some result) \<and>
    l \<in> set (split_newline (queries req)) \<and> lex_filtered (strip l) = Inr toks \<and>
    (T_tagged, lexeme, j, name) \<in> set toks"
  obtain r objs' where pl:
    "parse_lines c (enumerate 0 (split_newline (queries req))) None (tag_table db) = (r, objs')"
    by force
  with a obtain pq where r: "r = Inr (Some pq)"
    by (cases r) (auto simp: query_participations_def Let_def split: option.splits if_splits)
  from a obtain n where "n < length (split_newline (queries req))"
    and "split_newline (queries req) ! n = l"
    by (auto simp: in_set_conv_nth)
  then have n: "(n, l) \<in> set (enumerate 0 (split_newline (queries req)))"
    by (simp add: in_set_enumerate_eq)
  from parse_lines_creates_tags[OF pl[unfolded r] n] a have m: "(c, name) \<in> set objs'" by blast
  from a pl r have "db1 = (if apply_submitted req
      then fst (apply_operation c (op req) (tag req)
             (filter_participations c pq (participations db)) (db\<lparr>tag_table := objs'\<rparr>))
      else db\<lparr>tag_table := objs'\<rparr>)"
    by (auto simp: query_participations_def Let_def split: if_splits prod.splits)
  with m apply_operation_tag_table[of "db\<lparr>tag_table := objs'\<rparr>" c "op req" "tag req"]
  show "(c, name) \<in> set (tag_table db1)" by (auto split: if_splits)
  assume "\<not> apply_submitted req"
  with a pl r show "participations db1 = participations db" and "msgs = []"
    by (auto simp: query_participations_def Let_def)
next
  assume a: "index ps < length (lexed ps) \<and> fst (lexed ps ! index ps) = T_tagged"
  show "\<exists>k objs'. parse_terminal c ps =
                 (Return (Tags_pk k), advance (ps\<lparr>tag_objects := objs'\<rparr>)) \<and>
               k < length objs' \<and> objs' ! k = (c, next_match_obj ps) \<and>
               objs' = (if (c, next_match_obj ps) \<in> set (tag_objects ps) then tag_objects ps
                        else tag_objects ps @ [(c, next_match_obj ps)])"
  proof (cases "find_pk (c, next_match_obj ps) (tag_objects ps)")
    case None
    then have "(c, next_match_obj ps) \<notin> set (tag_objects ps)" by (simp add: find_pk_None)
    with a None show ?thesis
      by (auto simp: parse_terminal_def next_tag_def get_or_create_def)
  next
    case (Some k)
    then have "(c, next_match_obj ps) \<in> set (tag_objects ps)"
      using find_pk_None[of "(c, next_match_obj ps)" "tag_objects ps"] by auto
    with a Some find_pk_Some[OF Some] show ?thesis
      by (auto simp: parse_terminal_def next_tag_def get_or_create_def)
  qed
qed

theorem tagged_reference_creates_tag_witness:
  "(1, ''foo'') \<in> set (snd (parse_query 1 ''role:student tagged:foo'' [])) \<and>
   (1, ''foo'') \<in> set (tag_table (fst (query_participations 1
      \<lparr>queries = ''tagged:foo'', apply_submitted = False, op = Drop, tag = []\<rparr>
      \<lparr>tag_table = [], participations = []\<rparr>))) \<and>
   fst (parse_terminal 1 \<lparr>lexed = [(T_tagged, ''tagged:foo'', 0, ''foo'')], index = 0,
      tag_objects = []\<rparr>) = Return (Tags_pk 0)"
proof -
  have p: "parse_query 1 ''role:student tagged:foo'' [] =
      (Return (QAnd (Role ''student'') (Tags_pk 0)), [(1, ''foo'')])"
    by code_simp
  have l: "lex_filtered ''role:student tagged:foo'' =
      Inr [(T_role, ''role:student'', 0, ''student''), (T_tagged, ''tagged:foo'', 13, ''foo'')]"
    by code_simp
  from tagged_reference_creates_tag[where c = 1 and s = "''role:student tagged:foo''"
      and objs = "[]" and q = "QAnd (Role ''student'') (Tags_pk 0)" and ?objs1.0 = "[(1, ''foo'')]"
      and toks = "[(T_role, ''role:student'', 0, ''student''),
                   (T_tagged, ''tagged:foo'', 13, ''foo'')]"
      and lexeme = "''tagged:foo''" and j = 13 and name = "''foo''"] p l
  have a: "(1, ''foo'') \<in> set (snd (parse_query 1 ''role:student tagged:foo'' []))" by simp
  have v: "query_participations 1
      \<lparr>queries = ''tagged:foo'', apply_submitted = False, op = Drop, tag = []\<rparr>
      \<lparr>tag_table = [], participations = []\<rparr> =
      (\<lparr>tag_table = [(1, ''foo'')], participations = []\<rparr>, [], Some [])"
    by code_simp
  have sp: "split_newline ''tagged:foo'' = [''tagged:foo'']" by code_simp
  have st: "strip ''tagged:foo'' = ''tagged:foo''" by code_simp
  have l2: "lex_filtered ''tagged:foo'' = Inr [(T_tagged, ''tagged:foo'', 0, ''foo'')]"
    by code_simp
  from tagged_reference_creates_tag[where c = 1
      and req = "\<lparr>queries = ''tagged:foo'', apply_submitted = False, op = Drop, tag = []\<rparr>"
      and db = "\<lparr>tag_table = [], participations = []\<rparr>"
      and ?db1.0 = "\<lparr>tag_table = [(1, ''foo'')], participations = []\<rparr>"
      and msgs = "[]" and result = "[]" and l = "''tagged:foo''"
      and toks = "[(T_tagged, ''tagged:foo'', 0, ''foo'')]"
      and lexeme = "''tagged:foo''" and j = 0 and name = "''foo''"] v sp st l2
  have b: "(1, ''foo'') \<in> set (tag_table (fst (query_participations 1
      \<lparr>queries = ''tagged:foo'', apply_submitted = False, op = Drop, tag = []\<rparr>
      \<lparr>tag_table = [], participations = []\<rparr>)))" by simp
  from tagged_reference_creates_tag[where c = 1
      and ps = "\<lparr>lexed = [(T_tagged, ''tagged:foo'', 0, ''foo'')], index = 0,
                  tag_objects = []\<rparr>"]
  have c: "fst (parse_terminal 1 \<lparr>lexed = [(T_tagged, ''tagged:foo'', 0, ''foo'')], index = 0,
      tag_objects = []\<rparr>) = Return (Tags_pk 0)"
    by (auto simp: next_match_obj_def)
  from a b c show ?thesis by simp
qed

section \<open>Negation and precedence\<close>














lemma parse_terminal_Return:
  assumes "parse_terminal c ps = (Return q, ps1)"
  shows "index ps < length (lexed ps) \<and> \<not> is_next T_not ps \<and> \<not> is_next T_openpar ps \<and>
         lexed ps1 = lexed ps \<and> index ps1 = Suc (index ps)"
  using assms
  by (auto simp: parse_terminal_def next_tag_def is_next_def advance_def
           split: outcome.splits if_splits option.splits prod.splits)

lemma not_binds_tighter_than_and:
  assumes n: "fst tn = T_not" and a: "fst ta = T_and"
    and pa: "parse_terminal c \<lparr>lexed = [tn, t1, ta, t2], index = 1, tag_objects = objs\<rparr>
               = (Return q1, ps1)"
    and pb: "parse_terminal c (advance ps1) = (Return q2, ps2)"
  shows "inner_parse c \<lparr>lexed = [tn, t1, ta, t2], index = 0, tag_objects = objs\<rparr> 0
           = (Return (QAnd (QNot q1) q2), ps2)"
proof -
  define ps0 where "ps0 = \<lparr>lexed = [tn, t1, ta, t2], index = 0, tag_objects = objs\<rparr>"
  define psA where "psA = \<lparr>lexed = [tn, t1, ta, t2], index = 1, tag_objects = objs\<rparr>"
  have pa': "parse_terminal c psA = (Return q1, ps1)" using pa by (simp add: psA_def)
  have adv: "advance ps0 = psA" by (simp add: advance_def ps0_def psA_def)
  have s0: "\<not> is_at_end ps0" "is_next T_not ps0"
    using n by (simp_all add: ps0_def is_at_end_def is_next_def next_tag_def)
  have sA: "\<not> is_at_end psA" by (simp add: psA_def is_at_end_def)
  from parse_terminal_Return[OF pa']
  have A: "\<not> is_next T_not psA" "\<not> is_next T_openpar psA"
    "lexed ps1 = [tn, t1, ta, t2]" "index ps1 = 2" by (simp_all add: psA_def)
  from parse_terminal_Return[OF pb] A
  have B: "\<not> is_next T_not (advance ps1)" "\<not> is_next T_openpar (advance ps1)"
    "lexed ps2 = [tn, t1, ta, t2]" "index ps2 = 4" by (simp_all add: advance_def)
  have e2: "is_at_end ps2" using B by (simp add: is_at_end_def)
  have l2: "while_did_something c (QAnd (QNot q1) q2) ps2 0 = (Return (QAnd (QNot q1) q2), ps2)"
    using e2 by (simp add: while_did_something.simps[of _ _ ps2])
  have nt1: "next_tag ps1 = Return T_and" "\<not> is_at_end ps1"
    using A a by (simp_all add: next_tag_def is_at_end_def)
  have ne: "\<not> is_at_end (advance ps1)" using A by (simp add: is_at_end_def advance_def)
  have l2': "while_did_something c q2 ps2 PREC_AND = (Return q2, ps2)"
    using e2 by (simp add: while_did_something.simps[of _ _ ps2])
  have i3: "inner_parse c (advance ps1) PREC_AND = (Return q2, ps2)"
    using B(1,2) pb ne l2' by (simp add: inner_parse.simps[of _ "advance ps1"])
  have l1: "while_did_something c (QNot q1) ps1 0 = (Return (QAnd (QNot q1) q2), ps2)"
    using nt1 i3 l2
    by (simp add: while_did_something.simps[of _ _ ps1] PREC_AND_def)
  have l1': "while_did_something c q1 ps1 PREC_NOT = (Return q1, ps1)"
    using nt1
    by (simp add: while_did_something.simps[of _ _ ps1] PREC_AND_def PREC_NOT_def PREC_OR_def)
  have iA: "inner_parse c psA PREC_NOT = (Return q1, ps1)"
    using A(1,2) sA pa' l1' by (simp add: inner_parse.simps[of _ psA])
  have "inner_parse c ps0 0 = (Return (QAnd (QNot q1) q2), ps2)"
    using s0 iA l1 adv by (simp add: inner_parse.simps[of _ ps0])
  then show ?thesis by (simp add: ps0_def)
qed

text \<open>
  C4. The query \<^verbatim>\<open>role:student and not status:active or tagged:foo\<close> compiles to
  \<open>(role:student AND (NOT status:active)) OR tagged:foo\<close>, which is not equivalent to
  \<open>role:student AND ((NOT status:active) OR tagged:foo)\<close>: a participation that holds the tag
  and has another role matches the first only. In general, for any two terminal tokens,
  \<^verbatim>\<open>not a and b\<close> compiles to \<open>(NOT a) AND b\<close>: the \<^verbatim>\<open>not\<close> takes the terminal that follows it
  and nothing more.
\<close>

theorem not_binds_tighter_than_and_than_or:
  "fst (parse_query c ''role:student and not status:active or tagged:foo'' objs) =
     Return (QOr (QAnd (Role ''student'') (QNot (Status ''active'')))
                 (Tags_pk (fst (fst (get_or_create c ''foo'' objs))))) \<and>
   (\<forall>p k. matches (QOr (QAnd (Role ''student'') (QNot (Status ''active''))) (Tags_pk k)) p =
            ((role p = ''student'' \<and> status p \<noteq> ''active'') \<or> k \<in> tags p)) \<and>
   (\<forall>k. \<exists>p. matches (QOr (QAnd (Role ''student'') (QNot (Status ''active''))) (Tags_pk k)) p \<and>
            \<not> matches (QAnd (Role ''student'') (QOr (QNot (Status ''active'')) (Tags_pk k))) p) \<and>
   (fst tn = T_not \<and> fst ta = T_and \<and>
    parse_terminal c \<lparr>lexed = [tn, t1, ta, t2], index = 1, tag_objects = objs\<rparr>
      = (Return q1, ps1) \<and>
    parse_terminal c (advance ps1) = (Return q2, ps2) \<longrightarrow>
      inner_parse c \<lparr>lexed = [tn, t1, ta, t2], index = 0, tag_objects = objs\<rparr> 0
        = (Return (QAnd (QNot q1) q2), ps2)) \<and>
   parse_query c ''not role:a and role:b'' objs =
     (Return (QAnd (QNot (Role ''a'')) (Role ''b'')), objs)"
proof (intro conjI allI impI)
  show "fst (parse_query c ''role:student and not status:active or tagged:foo'' objs) =
     Return (QOr (QAnd (Role ''student'') (QNot (Status ''active'')))
                 (Tags_pk (fst (fst (get_or_create c ''foo'' objs)))))"
    by (simp add: lex_eval parse_eval split: prod.splits)
next
  fix p k
  show "matches (QOr (QAnd (Role ''student'') (QNot (Status ''active''))) (Tags_pk k)) p =
            ((role p = ''student'' \<and> status p \<noteq> ''active'') \<or> k \<in> tags p)"
    by simp
next
  fix k
  let ?p = "\<lparr>pk = 1, p_course = c, user_id = 1, user_email = [], user_username = [],
              role = ''observer'', status = ''active'', tags = {k}, flow_sessions = []\<rparr>"
  have "matches (QOr (QAnd (Role ''student'') (QNot (Status ''active''))) (Tags_pk k)) ?p \<and>
        \<not> matches (QAnd (Role ''student'') (QOr (QNot (Status ''active'')) (Tags_pk k))) ?p"
    by simp
  then show "\<exists>p. matches (QOr (QAnd (Role ''student'') (QNot (Status ''active''))) (Tags_pk k)) p \<and>
            \<not> matches (QAnd (Role ''student'') (QOr (QNot (Status ''active'')) (Tags_pk k))) p"
    by blast
next
  assume "fst tn = T_not \<and> fst ta = T_and \<and>
    parse_terminal c \<lparr>lexed = [tn, t1, ta, t2], index = 1, tag_objects = objs\<rparr>
      = (Return q1, ps1) \<and>
    parse_terminal c (advance ps1) = (Return q2, ps2)"
  then show "inner_parse c \<lparr>lexed = [tn, t1, ta, t2], index = 0, tag_objects = objs\<rparr> 0
        = (Return (QAnd (QNot q1) q2), ps2)"
    using not_binds_tighter_than_and by blast
next
  show "parse_query c ''not role:a and role:b'' objs =
     (Return (QAnd (QNot (Role ''a'')) (Role ''b'')), objs)"
    by (simp add: lex_eval parse_eval)
qed

theorem not_binds_tighter_than_and_than_or_witness:
  "fst (parse_query 1 ''role:student and not status:active or tagged:foo'' [(1, ''foo'')]) =
     Return (QOr (QAnd (Role ''student'') (QNot (Status ''active''))) (Tags_pk 0)) \<and>
   inner_parse 1 \<lparr>lexed = [(T_not, ''not'', 0, []), (T_has_started, ''has-started:q'', 4, ''q''),
        (T_and, ''and'', 18, []), (T_id, ''id:7'', 22, ''7'')], index = 0, tag_objects = []\<rparr> 0 =
     (Return (QAnd (QNot (Flow_sessions [Flow_id ''q'', Fs_course 1])) (User_id 7)),
      \<lparr>lexed = [(T_not, ''not'', 0, []), (T_has_started, ''has-started:q'', 4, ''q''),
        (T_and, ''and'', 18, []), (T_id, ''id:7'', 22, ''7'')], index = 4, tag_objects = []\<rparr>)"
proof -
  let ?toks = "[(T_not, ''not'', 0, []), (T_has_started, ''has-started:q'', 4, ''q''),
        (T_and, ''and'', 18, []), (T_id, ''id:7'', 22, ''7'')]"
  have g: "get_or_create 1 ''foo'' [(1, ''foo'')] = ((0, False), [(1, ''foo'')])"
    by (simp add: get_or_create_def)
  have p1: "parse_terminal 1 \<lparr>lexed = ?toks, index = 1, tag_objects = []\<rparr> =
      (Return (Flow_sessions [Flow_id ''q'', Fs_course 1]),
       \<lparr>lexed = ?toks, index = 2, tag_objects = []\<rparr>)"
    by (simp add: parse_terminal_def next_tag_def next_match_obj_def advance_def)
  have v: "py_int ''7'' = Some 7" by code_simp
  have p2: "parse_terminal 1 (advance \<lparr>lexed = ?toks, index = 2, tag_objects = []\<rparr>) =
      (Return (User_id 7), \<lparr>lexed = ?toks, index = 4, tag_objects = []\<rparr>)"
    by (simp add: parse_terminal_def next_tag_def next_match_obj_def advance_def v)
  from not_binds_tighter_than_and_than_or[where c = 1 and objs = "[(1, ''foo'')]"] g
  have a: "fst (parse_query 1 ''role:student and not status:active or tagged:foo''
             [(1, ''foo'')]) =
     Return (QOr (QAnd (Role ''student'') (QNot (Status ''active''))) (Tags_pk 0))"
    by simp
  from not_binds_tighter_than_and_than_or[where c = 1 and objs = "[]"
      and tn = "(T_not, ''not'', 0, [])" and ?t1.0 = "(T_has_started, ''has-started:q'', 4, ''q'')"
      and ta = "(T_and, ''and'', 18, [])" and ?t2.0 = "(T_id, ''id:7'', 22, ''7'')"
      and ?q1.0 = "Flow_sessions [Flow_id ''q'', Fs_course 1]"
      and ?ps1.0 = "\<lparr>lexed = ?toks, index = 2, tag_objects = []\<rparr>"
      and ?q2.0 = "User_id 7"
      and ?ps2.0 = "\<lparr>lexed = ?toks, index = 4, tag_objects = []\<rparr>"] p1 p2
  have b: "inner_parse 1 \<lparr>lexed = ?toks, index = 0, tag_objects = []\<rparr> 0 =
     (Return (QAnd (QNot (Flow_sessions [Flow_id ''q'', Fs_course 1])) (User_id 7)),
      \<lparr>lexed = ?toks, index = 4, tag_objects = []\<rparr>)"
    by simp
  from a b show ?thesis by simp
qed

section \<open>Parsing against two tag tables\<close>

text \<open>
  The parser reads the tag table only through \<open>get_or_create\<close>. Two runs over the same tokens
  whose tables share the first \<open>n\<close> rows take the same path: they raise the same error, or
  return predicates that are equal up to tag keys that are \<open>n\<close> or more on both sides.
  \<open>cap n\<close> maps all such keys to \<open>n\<close>.
\<close>

fun cap :: "nat \<Rightarrow> Q \<Rightarrow> Q" where
  "cap n (Tags_pk k) = Tags_pk (min k n)"
| "cap n (QAnd a b) = QAnd (cap n a) (cap n b)"
| "cap n (QOr a b) = QOr (cap n a) (cap n b)"
| "cap n (QNot a) = QNot (cap n a)"
| "cap n (User_id i) = User_id i"
| "cap n (User_email_iexact s) = User_email_iexact s"
| "cap n (User_email_icontains s) = User_email_icontains s"
| "cap n (User_username_exact s) = User_username_exact s"
| "cap n (User_username_contains s) = User_username_contains s"
| "cap n (Role s) = Role s"
| "cap n (Status s) = Status s"
| "cap n (Flow_sessions conds) = Flow_sessions conds"

fun cap_outcome :: "nat \<Rightarrow> Q outcome \<Rightarrow> Q outcome" where
  "cap_outcome n (Raise e) = Raise e"
| "cap_outcome n (Return q) = Return (cap n q)"

definition same_run :: "tag_table \<Rightarrow> pstate \<Rightarrow> pstate \<Rightarrow> bool" where
  "same_run base ps ps' =
     (lexed ps = lexed ps' \<and> index ps = index ps' \<and>
      (\<exists>xa. tag_objects ps = base @ xa) \<and> (\<exists>xb. tag_objects ps' = base @ xb))"

lemma matches_cap:
  "\<forall>k \<in> tags p. k < n \<Longrightarrow> matches (cap n q) p = matches q p"
  by (induction q) (auto simp: min_def)

lemma find_pk_append:
  "find_pk k (base @ x) =
     (case find_pk k base of
        Some i \<Rightarrow> Some i
      | None \<Rightarrow> map_option (\<lambda>i. length base + i) (find_pk k x))"
  by (induction base; cases "find_pk k x") (auto split: option.splits)

lemma get_or_create_capped:
  assumes "get_or_create c name (base @ xa) = ((ka, ba), A)"
    and "get_or_create c name (base @ xb) = ((kb, bb), B)"
  shows "min ka (length base) = min kb (length base) \<and>
         (\<exists>ya. A = base @ ya) \<and> (\<exists>yb. B = base @ yb)"
  using assms
  by (auto simp: get_or_create_def find_pk_append split: option.splits)

lemma same_run_advance: "same_run base ps ps' \<Longrightarrow> same_run base (advance ps) (advance ps')"
  by (simp add: same_run_def advance_def)

lemma same_run_conds:
  assumes "same_run base ps ps'"
  shows "is_at_end ps' = is_at_end ps" "is_next t ps' = is_next t ps"
    "next_tag ps' = next_tag ps" "next_match_obj ps' = next_match_obj ps"
    "expected what ps' = expected what ps"
  using assms
  by (simp_all add: same_run_def is_at_end_def is_next_def next_tag_def next_match_obj_def
        expected_def)

lemma parse_terminal_same_run:
  assumes s: "same_run base ps ps'"
    and a: "parse_terminal c ps = (r, ps1)" and b: "parse_terminal c ps' = (r', ps1')"
  shows "cap_outcome (length base) r' = cap_outcome (length base) r \<and> same_run base ps1 ps1'"
proof -
  from s obtain xa xb where t: "tag_objects ps = base @ xa" "tag_objects ps' = base @ xb"
    by (auto simp: same_run_def)
  show ?thesis
  proof (cases "next_tag ps = Return T_tagged")
    case True
    obtain ka ba A where ga: "get_or_create c (next_match_obj ps) (base @ xa) = ((ka, ba), A)"
      by (metis prod.exhaust)
    obtain kb bb B where gb: "get_or_create c (next_match_obj ps) (base @ xb) = ((kb, bb), B)"
      by (metis prod.exhaust)
    from get_or_create_capped[OF ga gb] a b True s t ga gb show ?thesis
      by (auto simp: parse_terminal_def same_run_conds[OF s] same_run_def advance_def)
  next
    case False
    with a b s show ?thesis
      by (auto simp: parse_terminal_def same_run_conds[OF s] same_run_advance
               split: outcome.splits if_splits option.splits)
  qed
qed

lemma cap_outcome_Return:
  "cap_outcome n r' = Return (cap n q) \<Longrightarrow> \<exists>q'. r' = Return q' \<and> cap n q' = cap n q"
  by (cases r') auto

lemma cap_outcome_Raise: "cap_outcome n r' = Raise e \<Longrightarrow> r' = Raise e"
  by (cases r') auto

lemma parses_same_run:
  "parses c ps m r ps1 \<Longrightarrow> same_run base ps ps' \<Longrightarrow> inner_parse c ps' m = (r', ps1') \<Longrightarrow>
     cap_outcome (length base) r' = cap_outcome (length base) r \<and> same_run base ps1 ps1'"
  "loops c l ps m r ps1 \<Longrightarrow> same_run base ps ps' \<Longrightarrow> cap (length base) l' = cap (length base) l \<Longrightarrow>
     while_did_something c l' ps' m = (r', ps1') \<Longrightarrow>
     cap_outcome (length base) r' = cap_outcome (length base) r \<and> same_run base ps1 ps1'"
proof (induction arbitrary: ps' r' ps1' and ps' l' r' ps1' rule: parses_loops.inducts)
  case (P_end ps c m)
  then show ?case
    by (auto simp: inner_parse.simps[of c ps'] same_run_conds[OF P_end.prems(1)])
next
  case (P_not_raise ps c e ps1 m)
  note s = P_not_raise.prems(1)
  obtain x y where e: "inner_parse c (advance ps') PREC_NOT = (x, y)" by force
  from P_not_raise.IH[OF same_run_advance[OF s] e]
  have "x = Raise e" "same_run base ps1 y" by (auto dest: cap_outcome_Raise)
  with P_not_raise.prems(2) P_not_raise.hyps e show ?case
    by (simp add: inner_parse.simps[of c ps'] same_run_conds[OF s])
next
  case (P_not ps c q ps1 m r ps2)
  note s = P_not.prems(1)
  obtain x y where e: "inner_parse c (advance ps') PREC_NOT = (x, y)" by force
  from P_not.IH(1)[OF same_run_advance[OF s] e]
  obtain q' where x: "x = Return q'" "cap (length base) q' = cap (length base) q"
    and y: "same_run base ps1 y" by (auto dest: cap_outcome_Return)
  from P_not.prems(2) P_not.hyps e x
  have "while_did_something c (QNot q') y m = (r', ps1')"
    by (simp add: inner_parse.simps[of c ps'] same_run_conds[OF s])
  from P_not.IH(2)[OF y _ this] x show ?case by simp
next
  case (P_par_raise ps c e ps1 m)
  note s = P_par_raise.prems(1)
  obtain x y where e: "inner_parse c (advance ps') 0 = (x, y)" by force
  from P_par_raise.IH[OF same_run_advance[OF s] e]
  have "x = Raise e" "same_run base ps1 y" by (auto dest: cap_outcome_Raise)
  with P_par_raise.prems(2) P_par_raise.hyps e show ?case
    by (simp add: inner_parse.simps[of c ps'] same_run_conds[OF s])
next
  case (P_par_end ps c q ps1 m)
  note s = P_par_end.prems(1)
  obtain x y where e: "inner_parse c (advance ps') 0 = (x, y)" by force
  from P_par_end.IH[OF same_run_advance[OF s] e]
  obtain q' where x: "x = Return q'" and y: "same_run base ps1 y"
    by (auto dest: cap_outcome_Return)
  with P_par_end.prems(2) P_par_end.hyps e show ?case
    by (simp add: inner_parse.simps[of c ps'] same_run_conds[OF s] same_run_conds[OF y])
next
  case (P_par_open ps c q ps1 m)
  note s = P_par_open.prems(1)
  obtain x y where e: "inner_parse c (advance ps') 0 = (x, y)" by force
  from P_par_open.IH[OF same_run_advance[OF s] e]
  obtain q' where x: "x = Return q'" and y: "same_run base ps1 y"
    by (auto dest: cap_outcome_Return)
  with P_par_open.prems(2) P_par_open.hyps e show ?case
    by (simp add: inner_parse.simps[of c ps'] same_run_conds[OF s] same_run_conds[OF y])
next
  case (P_par ps c q ps1 m r ps2)
  note s = P_par.prems(1)
  obtain x y where e: "inner_parse c (advance ps') 0 = (x, y)" by force
  from P_par.IH(1)[OF same_run_advance[OF s] e]
  obtain q' where x: "x = Return q'" "cap (length base) q' = cap (length base) q"
    and y: "same_run base ps1 y" by (auto dest: cap_outcome_Return)
  from P_par.prems(2) P_par.hyps e x
  have "while_did_something c q' (advance y) m = (r', ps1')"
    by (simp add: inner_parse.simps[of c ps'] same_run_conds[OF s] same_run_conds[OF y])
  from P_par.IH(2)[OF same_run_advance[OF y] _ this] x show ?case by simp
next
  case (P_term_raise ps c e ps1 m)
  note s = P_term_raise.prems(1)
  obtain x y where e: "parse_terminal c ps' = (x, y)" by force
  from parse_terminal_same_run[OF s P_term_raise.hyps(4) e]
  have "x = Raise e" "same_run base ps1 y" by (auto dest: cap_outcome_Raise)
  with P_term_raise.prems(2) P_term_raise.hyps e show ?case
    by (simp add: inner_parse.simps[of c ps'] same_run_conds[OF s])
next
  case (P_term ps c q ps1 m r ps2)
  note s = P_term.prems(1)
  obtain x y where e: "parse_terminal c ps' = (x, y)" by force
  from parse_terminal_same_run[OF s P_term.hyps(4) e]
  obtain q' where x: "x = Return q'" "cap (length base) q' = cap (length base) q"
    and y: "same_run base ps1 y" by (auto dest: cap_outcome_Return)
  from P_term.prems(2) P_term.hyps e x
  have "while_did_something c q' y m = (r', ps1')"
    by (simp add: inner_parse.simps[of c ps'] same_run_conds[OF s])
  from P_term.IH[OF y _ this] x show ?case by simp
next
  case (L_end ps c l m)
  then show ?case
    by (auto simp: while_did_something.simps[of c l' ps'] same_run_conds[OF L_end.prems(1)])
next
  case (L_and_raise ps m c e ps1 l)
  note s = L_and_raise.prems(1)
  obtain x y where e: "inner_parse c (advance ps') PREC_AND = (x, y)" by force
  from L_and_raise.IH[OF same_run_advance[OF s] e]
  have "x = Raise e" "same_run base ps1 y" by (auto dest: cap_outcome_Raise)
  with L_and_raise.prems(3) L_and_raise.hyps e show ?case
    by (simp add: while_did_something.simps[of c l' ps'] same_run_conds[OF s])
next
  case (L_and ps m c q ps1 l r ps2)
  note s = L_and.prems(1)
  obtain x y where e: "inner_parse c (advance ps') PREC_AND = (x, y)" by force
  from L_and.IH(1)[OF same_run_advance[OF s] e]
  obtain q' where x: "x = Return q'" "cap (length base) q' = cap (length base) q"
    and y: "same_run base ps1 y" by (auto dest: cap_outcome_Return)
  from L_and.prems(3) L_and.hyps e x
  have "while_did_something c (QAnd l' q') y m = (r', ps1')"
    by (simp add: while_did_something.simps[of c l' ps'] same_run_conds[OF s])
  from L_and.IH(2)[OF y _ this] x L_and.prems(2) show ?case by simp
next
  case (L_or_raise ps m c e ps1 l)
  note s = L_or_raise.prems(1)
  obtain x y where e: "inner_parse c (advance ps') PREC_OR = (x, y)" by force
  from L_or_raise.IH[OF same_run_advance[OF s] e]
  have "x = Raise e" "same_run base ps1 y" by (auto dest: cap_outcome_Raise)
  with L_or_raise.prems(3) L_or_raise.hyps e show ?case
    by (simp add: while_did_something.simps[of c l' ps'] same_run_conds[OF s])
next
  case (L_or ps m c q ps1 l r ps2)
  note s = L_or.prems(1)
  obtain x y where e: "inner_parse c (advance ps') PREC_OR = (x, y)" by force
  from L_or.IH(1)[OF same_run_advance[OF s] e]
  obtain q' where x: "x = Return q'" "cap (length base) q' = cap (length base) q"
    and y: "same_run base ps1 y" by (auto dest: cap_outcome_Return)
  from L_or.prems(3) L_or.hyps e x
  have "while_did_something c (QOr l' q') y m = (r', ps1')"
    by (simp add: while_did_something.simps[of c l' ps'] same_run_conds[OF s])
  from L_or.IH(2)[OF y _ this] x L_or.prems(2) show ?case by simp
next
  case (L_implicit_raise ps t m c e ps1 l)
  note s = L_implicit_raise.prems(1)
  obtain x y where e: "inner_parse c ps' PREC_AND = (x, y)" by force
  from L_implicit_raise.IH[OF s e]
  have x: "x = Raise e" "same_run base ps1 y" by (auto dest: cap_outcome_Raise)
  from L_implicit_raise.hyps(3) have t: "t \<noteq> T_and" "t \<noteq> T_or"
    by (auto simp: TERMINALS_def)
  from x t L_implicit_raise.prems(3) L_implicit_raise.hyps e show ?case
    by (simp add: while_did_something.simps[of c l' ps'] same_run_conds[OF s])
next
  case (L_implicit ps t m c q ps1 l r ps2)
  note s = L_implicit.prems(1)
  obtain x y where e: "inner_parse c ps' PREC_AND = (x, y)" by force
  from L_implicit.IH(1)[OF s e]
  obtain q' where x: "x = Return q'" "cap (length base) q' = cap (length base) q"
    and y: "same_run base ps1 y" by (auto dest: cap_outcome_Return)
  from L_implicit.hyps(3) have t: "t \<noteq> T_and" "t \<noteq> T_or"
    by (auto simp: TERMINALS_def)
  from t L_implicit.prems(3) L_implicit.hyps e x
  have "while_did_something c (QAnd l' q') y m = (r', ps1')"
    by (simp add: while_did_something.simps[of c l' ps'] same_run_conds[OF s])
  from L_implicit.IH(2)[OF y _ this] x L_implicit.prems(2) show ?case by simp
next
  case (L_stop ps t m c l)
  note s = L_stop.prems(1)
  from L_stop.prems(3) L_stop.hyps have "r' = Return l'" "ps1' = ps'"
    by (simp_all add: while_did_something.simps[of c l' ps'] same_run_conds[OF s]
          del: set_append)
  with L_stop.prems show ?case by simp
qed

lemma parse_query_same_run:
  assumes a: "parse_query c s (base @ xa) = (r, A)"
    and b: "parse_query c s (base @ xb) = (r', B)"
  shows "cap_outcome (length base) r' = cap_outcome (length base) r"
proof (cases "lex_filtered s")
  case (Inl e)
  with a b show ?thesis by (simp add: parse_query_def)
next
  case (Inr toks)
  let ?ps = "\<lparr>lexed = toks, index = 0, tag_objects = base @ xa\<rparr>"
  let ?ps' = "\<lparr>lexed = toks, index = 0, tag_objects = base @ xb\<rparr>"
  have s: "same_run base ?ps ?ps'" by (simp add: same_run_def)
  show ?thesis
  proof (cases "is_at_end ?ps")
    case True
    then have "is_at_end ?ps'" by (simp add: is_at_end_def)
    with True a b Inr show ?thesis by (simp add: parse_query_def)
  next
    case False
    then have f': "\<not> is_at_end ?ps'" by (simp add: is_at_end_def)
    obtain x y where e: "inner_parse c ?ps 0 = (x, y)" by force
    obtain x' y' where e': "inner_parse c ?ps' 0 = (x', y')" by force
    from parses_same_run(1)[OF inner_parse_parses(1)[OF e] s e']
    have c: "cap_outcome (length base) x' = cap_outcome (length base) x"
      and y: "same_run base y y'" by simp_all
    from same_run_conds(1)[OF y] have ae: "is_at_end y' = is_at_end y" .
    show ?thesis
    proof (cases x)
      case (Raise e1)
      with c have "x' = Raise e1" by (auto dest: cap_outcome_Raise)
      with Raise a b Inr False f' e e' show ?thesis by (auto simp: parse_query_def)
    next
      case (Return q)
      with c obtain q' where "x' = Return q'" "cap (length base) q' = cap (length base) q"
        by (auto dest: cap_outcome_Return)
      with Return a b Inr False f' e e' ae show ?thesis
        by (auto simp: parse_query_def split: if_splits)
    qed
  qed
qed

lemma parse_query_raises_anywhere:
  assumes "parse_query c s objs = (Raise e, A)"
  shows "\<exists>B. parse_query c s objs' = (Raise e, B)"
proof -
  obtain r' B where b: "parse_query c s objs' = (r', B)" by force
  from parse_query_same_run[of c s "[]" objs "Raise e" A objs' r' B] assms b
  have "r' = Raise e" by (auto dest: cap_outcome_Raise)
  with b show ?thesis by blast
qed

lemma parse_query_returns_extended:
  assumes "parse_query c s objs = (Return q, A)"
  shows "\<exists>q' B. parse_query c s (objs @ x) = (Return q', B) \<and>
                 cap (length objs) q' = cap (length objs) q"
proof -
  obtain r' B where b: "parse_query c s (objs @ x) = (r', B)" by force
  from parse_query_same_run[of c s objs "[]" "Return q" A x r' B] assms b
  obtain q' where "r' = Return q'" "cap (length objs) q' = cap (length objs) q"
    by (auto dest: cap_outcome_Return)
  with b show ?thesis by blast
qed

section \<open>Several lines\<close>

lemma parse_lines_first_error:
  assumes "i < length ls" and "strip (ls ! i) \<noteq> []"
    and "parse_query c (strip (ls ! i)) objs0 = (Raise e0, objs0')"
  shows "\<exists>j e objs'. parse_lines c (enumerate n ls) parsed_query objs = (Inl (n + j, e), objs') \<and>
           j \<le> i \<and> strip (ls ! j) \<noteq> [] \<and>
           (\<exists>A. parse_query c (strip (ls ! j)) objs0 = (Raise e, A))"
  using assms
proof (induction ls arbitrary: i n parsed_query objs)
  case Nil
  then show ?case by simp
next
  case (Cons x xs)
  show ?case
  proof (cases "strip x = []")
    case True
    with Cons.prems obtain i' where i: "i = Suc i'" by (cases i) auto
    with Cons.prems have "i' < length xs" "strip (xs ! i') \<noteq> []"
      "parse_query c (strip (xs ! i')) objs0 = (Raise e0, objs0')" by simp_all
    from Cons.IH[OF this, of "Suc n" parsed_query objs]
    obtain j e objs' where
      "parse_lines c (enumerate (Suc n) xs) parsed_query objs = (Inl (Suc n + j, e), objs')"
      "j \<le> i'" "strip (xs ! j) \<noteq> []" "\<exists>A. parse_query c (strip (xs ! j)) objs0 = (Raise e, A)"
      by blast
    with True i show ?thesis
      by (intro exI[of _ "Suc j"] exI[of _ e] exI[of _ objs']) simp
  next
    case False
    obtain r objs1 where p: "parse_query c (strip x) objs = (r, objs1)" by force
    show ?thesis
    proof (cases r)
      case (Raise e)
      from parse_query_raises_anywhere[OF p[unfolded Raise], of objs0]
      have "\<exists>A. parse_query c (strip x) objs0 = (Raise e, A)" .
      with False p Raise show ?thesis
        by (intro exI[of _ 0] exI[of _ e] exI[of _ objs1]) simp
    next
      case (Return q)
      have "i \<noteq> 0"
      proof
        assume "i = 0"
        with Cons.prems have "parse_query c (strip x) objs0 = (Raise e0, objs0')" by simp
        from parse_query_raises_anywhere[OF this, of objs] p Return show False by auto
      qed
      then obtain i' where i: "i = Suc i'" by (cases i) auto
      with Cons.prems have "i' < length xs" "strip (xs ! i') \<noteq> []"
        "parse_query c (strip (xs ! i')) objs0 = (Raise e0, objs0')" by simp_all
      from Cons.IH[OF this, of "Suc n"
          "case parsed_query of None \<Rightarrow> Some q | Some pq \<Rightarrow> Some (QOr pq q)" objs1]
      obtain j e objs' where
        "parse_lines c (enumerate (Suc n) xs)
           (case parsed_query of None \<Rightarrow> Some q | Some pq \<Rightarrow> Some (QOr pq q)) objs1
           = (Inl (Suc n + j, e), objs')"
        "j \<le> i'" "strip (xs ! j) \<noteq> []"
        "\<exists>A. parse_query c (strip (xs ! j)) objs0 = (Raise e, A)"
        by blast
      with False p Return i show ?thesis
        by (intro exI[of _ "Suc j"] exI[of _ e] exI[of _ objs'])
           (cases parsed_query; simp)
    qed
  qed
qed

text \<open>
  C5. If some line of the submitted text, stripped and not empty, fails to compile
  (in whatever state of the tag table), the view compiles no predicate: it returns no
  result, so nothing is filtered, it changes no participation, whatever operation was
  submitted, and its only message is the error of the first line that fails, with the
  number of that line counted from 1. The tags that the lines before it created stay in
  the table.
\<close>

theorem failing_line_aborts_submission:
  assumes "i < length (split_newline (queries req))"
    and "strip (split_newline (queries req) ! i) \<noteq> []"
    and "parse_query c (strip (split_newline (queries req) ! i)) objs0 = (Raise e0, objs0')"
  shows "\<exists>j e objs'. j \<le> i \<and>
           strip (split_newline (queries req) ! j) \<noteq> [] \<and>
           (\<exists>A. parse_query c (strip (split_newline (queries req) ! j)) objs0 = (Raise e, A)) \<and>
           query_participations c req db =
             (db\<lparr>tag_table := objs'\<rparr>, [ERROR_in_line (j + 1) e], None)"
proof -
  from parse_lines_first_error[OF assms, of 0 None "tag_table db"]
  obtain j e objs' where
    "parse_lines c (enumerate 0 (split_newline (queries req))) None (tag_table db)
       = (Inl (j, e), objs')"
    "j \<le> i" "strip (split_newline (queries req) ! j) \<noteq> []"
    "\<exists>A. parse_query c (strip (split_newline (queries req) ! j)) objs0 = (Raise e, A)"
    by auto
  then show ?thesis
    by (intro exI[of _ j] exI[of _ e] exI[of _ objs']) (simp add: query_participations_def)
qed

theorem failing_line_aborts_submission_witness:
  "\<exists>j e objs'. j \<le> 1 \<and>
     query_participations 1
       \<lparr>queries = ''tagged:x'' @ [CHR 0x0A] @ ''role:'', apply_submitted = True,
        op = Drop, tag = []\<rparr>
       \<lparr>tag_table = [],
        participations = [\<lparr>pk = 1, p_course = 1, user_id = 5, user_email = ''a@b.c'',
          user_username = ''a'', role = ''student'', status = ''active'', tags = {},
          flow_sessions = []\<rparr>]\<rparr> =
     (\<lparr>tag_table = objs',
        participations = [\<lparr>pk = 1, p_course = 1, user_id = 5, user_email = ''a@b.c'',
          user_username = ''a'', role = ''student'', status = ''active'', tags = {},
          flow_sessions = []\<rparr>]\<rparr>, [ERROR_in_line (j + 1) e], None)"
proof -
  have sp: "split_newline (''tagged:x'' @ [CHR 0x0A] @ ''role:'') = [''tagged:x'', ''role:'']"
    by simp
  have st: "strip ''role:'' = ''role:''"
    by (simp add: strip_def strip_chars_def space_chars_def)
  have pq: "parse_query 1 ''role:'' [] = (Raise (InvalidTokenError 0), [])"
    by code_simp
  from failing_line_aborts_submission[where i = 1 and c = 1 and ?objs0.0 = "[]"
      and ?e0.0 = "InvalidTokenError 0" and objs0' = "[]"
      and req = "\<lparr>queries = ''tagged:x'' @ [CHR 0x0A] @ ''role:'', apply_submitted = True,
        op = Drop, tag = []\<rparr>"
      and db = "\<lparr>tag_table = [],
        participations = [\<lparr>pk = 1, p_course = 1, user_id = 5, user_email = ''a@b.c'',
          user_username = ''a'', role = ''student'', status = ''active'', tags = {},
          flow_sessions = []\<rparr>]\<rparr>"] sp st pq
  show ?thesis by auto
qed

lemma split_newline_single: "CHR 0x0A \<notin> set s \<Longrightarrow> split_newline s = [s]"
  by (induction s) auto

lemma split_newline_two:
  "CHR 0x0A \<notin> set a \<Longrightarrow> split_newline (a @ CHR 0x0A # b) = a # split_newline b"
  by (induction a) auto

lemma set_filter_participations:
  "set (filter_participations c q objs) = {p \<in> set objs. p_course p = c \<and> matches q p}"
  by (auto simp: filter_participations_def)

lemma single_line_result:
  assumes nl: "CHR 0x0A \<notin> set s"
    and v: "query_participations c \<lparr>queries = s, apply_submitted = False, op = o1, tag = t1\<rparr> db
              = (db1, msgs, Some res)"
  shows "\<exists>q objs1. strip s \<noteq> [] \<and> parse_query c (strip s) (tag_table db) = (Return q, objs1) \<and>
           res = filter_participations c q (participations db)"
proof (cases "strip s = []")
  case True
  with v nl show ?thesis by (simp add: query_participations_def split_newline_single)
next
  case False
  obtain r objs1 where p: "parse_query c (strip s) (tag_table db) = (r, objs1)" by force
  with v nl False show ?thesis
    by (cases r) (auto simp: query_participations_def split_newline_single Let_def)
qed

text \<open>
  C3. Let \<open>Q1\<close> and \<open>Q2\<close> be single lines that the view accepts on their own in list mode,
  with results \<open>r1\<close> and \<open>r2\<close>, on a database whose participations hold only tags of the tag
  table. Submitted as two lines, each is compiled by its own call of \<^verbatim>\<open>parse_query\<close>, the
  second on the tag table that the first has left, the two predicates are joined by \<open>QOr\<close>,
  and the participations in the result are those of \<open>r1\<close> together with those of \<open>r2\<close>.
\<close>

theorem two_lines_match_union:
  assumes nl: "CHR 0x0A \<notin> set Q1" "CHR 0x0A \<notin> set Q2"
    and wf: "tags_exist db"
    and v1: "query_participations c
               \<lparr>queries = Q1, apply_submitted = False, op = operation, tag = t\<rparr> db
               = (db1, msgs1, Some r1)"
    and v2: "query_participations c
               \<lparr>queries = Q2, apply_submitted = False, op = operation, tag = t\<rparr> db
               = (db2, msgs2, Some r2)"
  shows "\<exists>q1 q2 objs1 objs2 r.
           parse_query c (strip Q1) (tag_table db) = (Return q1, objs1) \<and>
           parse_query c (strip Q2) objs1 = (Return q2, objs2) \<and>
           query_participations c
             \<lparr>queries = Q1 @ [CHR 0x0A] @ Q2, apply_submitted = False, op = operation, tag = t\<rparr> db
             = (db\<lparr>tag_table := objs2\<rparr>, [], Some r) \<and>
           r = filter_participations c (QOr q1 q2) (participations db) \<and>
           set r = set r1 \<union> set r2"
proof -
  from single_line_result[OF nl(1) v1] obtain q1 objs1 where
    s1: "strip Q1 \<noteq> []" and p1: "parse_query c (strip Q1) (tag_table db) = (Return q1, objs1)"
    and r1: "r1 = filter_participations c q1 (participations db)" by blast
  from single_line_result[OF nl(2) v2] obtain q2' objs2' where
    s2: "strip Q2 \<noteq> []" and p2': "parse_query c (strip Q2) (tag_table db) = (Return q2', objs2')"
    and r2: "r2 = filter_participations c q2' (participations db)" by blast
  from parse_query_appends[OF p1] obtain x where x: "objs1 = tag_table db @ x" by blast
  from parse_query_returns_extended[OF p2', of x] x obtain q2 objs2 where
    p2: "parse_query c (strip Q2) objs1 = (Return q2, objs2)"
    and cp: "cap (length (tag_table db)) q2 = cap (length (tag_table db)) q2'" by auto
  have m: "matches q2 p = matches q2' p" if "p \<in> set (participations db)" for p
  proof -
    from wf that have "\<forall>k \<in> tags p. k < length (tag_table db)" by (auto simp: tags_exist_def)
    from matches_cap[OF this, of q2] matches_cap[OF this, of q2'] cp show ?thesis by simp
  qed
  let ?r = "filter_participations c (QOr q1 q2) (participations db)"
  have sp: "split_newline (Q1 @ CHR 0x0A # Q2) = [Q1, Q2]"
    using nl by (simp add: split_newline_two split_newline_single)
  have q: "query_participations c
             \<lparr>queries = Q1 @ [CHR 0x0A] @ Q2, apply_submitted = False, op = operation, tag = t\<rparr> db
             = (db\<lparr>tag_table := objs2\<rparr>, [], Some ?r)"
    using s1 s2 p1 p2 by (simp add: query_participations_def sp Let_def)
  have u: "set ?r = set r1 \<union> set r2"
    using m by (auto simp: r1 r2 set_filter_participations)
  from p1 p2 q u show ?thesis by blast
qed

theorem two_lines_match_union_witness:
  "\<exists>r objs. query_participations 1
      \<lparr>queries = ''role:student and status:active'' @ [CHR 0x0A] @ ''tagged:foo'',
       apply_submitted = False, op = Drop, tag = []\<rparr>
      \<lparr>tag_table = [(1, ''foo'')],
       participations =
        [\<lparr>pk = 1, p_course = 1, user_id = 11, user_email = ''a@x.org'', user_username = ''a'',
          role = ''student'', status = ''active'', tags = {}, flow_sessions = []\<rparr>,
         \<lparr>pk = 2, p_course = 1, user_id = 12, user_email = ''b@x.org'', user_username = ''b'',
          role = ''student'', status = ''requested'', tags = {0}, flow_sessions = []\<rparr>,
         \<lparr>pk = 3, p_course = 1, user_id = 13, user_email = ''c@x.org'', user_username = ''c'',
          role = ''observer'', status = ''active'', tags = {0}, flow_sessions = []\<rparr>]\<rparr>
      = (\<lparr>tag_table = objs,
       participations =
        [\<lparr>pk = 1, p_course = 1, user_id = 11, user_email = ''a@x.org'', user_username = ''a'',
          role = ''student'', status = ''active'', tags = {}, flow_sessions = []\<rparr>,
         \<lparr>pk = 2, p_course = 1, user_id = 12, user_email = ''b@x.org'', user_username = ''b'',
          role = ''student'', status = ''requested'', tags = {0}, flow_sessions = []\<rparr>,
         \<lparr>pk = 3, p_course = 1, user_id = 13, user_email = ''c@x.org'', user_username = ''c'',
          role = ''observer'', status = ''active'', tags = {0}, flow_sessions = []\<rparr>]\<rparr>,
         [], Some r) \<and>
     set r =
       {\<lparr>pk = 1, p_course = 1, user_id = 11, user_email = ''a@x.org'', user_username = ''a'',
          role = ''student'', status = ''active'', tags = {}, flow_sessions = []\<rparr>,
        \<lparr>pk = 2, p_course = 1, user_id = 12, user_email = ''b@x.org'', user_username = ''b'',
          role = ''student'', status = ''requested'', tags = {0}, flow_sessions = []\<rparr>,
        \<lparr>pk = 3, p_course = 1, user_id = 13, user_email = ''c@x.org'', user_username = ''c'',
          role = ''observer'', status = ''active'', tags = {0}, flow_sessions = []\<rparr>}"
proof -
  let ?A = "\<lparr>pk = 1, p_course = 1, user_id = 11, user_email = ''a@x.org'', user_username = ''a'',
          role = ''student'', status = ''active'', tags = {}, flow_sessions = []\<rparr>"
  let ?B = "\<lparr>pk = 2, p_course = 1, user_id = 12, user_email = ''b@x.org'', user_username = ''b'',
          role = ''student'', status = ''requested'', tags = {0}, flow_sessions = []\<rparr>"
  let ?C = "\<lparr>pk = 3, p_course = 1, user_id = 13, user_email = ''c@x.org'', user_username = ''c'',
          role = ''observer'', status = ''active'', tags = {0}, flow_sessions = []\<rparr>"
  let ?db = "\<lparr>tag_table = [(1, ''foo'')], participations = [?A, ?B, ?C]\<rparr>"
  have n1: "CHR 0x0A \<notin> set ''role:student and status:active''" by simp
  have n2: "CHR 0x0A \<notin> set ''tagged:foo''" by simp
  have wf: "tags_exist ?db" by (simp add: tags_exist_def)
  have v1: "query_participations 1
      \<lparr>queries = ''role:student and status:active'', apply_submitted = False, op = Drop,
       tag = []\<rparr> ?db = (?db, [], Some [?A])"
    by code_simp
  have v2: "query_participations 1
      \<lparr>queries = ''tagged:foo'', apply_submitted = False, op = Drop, tag = []\<rparr> ?db
      = (?db, [], Some [?B, ?C])"
    by code_simp
  from two_lines_match_union[OF n1 n2 wf v1 v2] show ?thesis by auto
qed

end
